theory Spec2Isabelle
  imports Complex_Main
begin

section \<open>The counting semaphore of \<^verbatim>\<open>src/semaphore.ts\<close>\<close>

text \<open>
  A JavaScript \<^verbatim>\<open>number\<close> handed to the constructor is a finite value, \<^verbatim>\<open>NaN\<close> or one of
  the two infinities. Finite values are read as reals (every finite double is one).
  The counter itself only ever holds integers, so \<open>count\<close> and \<open>capacity\<close> are kept as
  \<open>int\<close>; this is exact for doubles below \<open>2 ^ 53\<close>.
\<close>

datatype number = Finite real | NaN | PosInf | NegInf

text \<open>\<^verbatim>\<open>capacity <= 0\<close>: every comparison with \<^verbatim>\<open>NaN\<close> is false.\<close>

fun le_zero :: "number \<Rightarrow> bool" where
  "le_zero (Finite x) = (x \<le> 0)"
| "le_zero NaN = False"
| "le_zero PosInf = False"
| "le_zero NegInf = True"

text \<open>\<^verbatim>\<open>Number.isInteger\<close>: false for \<^verbatim>\<open>NaN\<close> and the infinities.\<close>

fun isInteger :: "number \<Rightarrow> bool" where
  "isInteger (Finite x) = (of_int \<lfloor>x\<rfloor> = x)"
| "isInteger NaN = False"
| "isInteger PosInf = False"
| "isInteger NegInf = False"

fun to_int :: "number \<Rightarrow> int" where
  "to_int (Finite x) = \<lfloor>x\<rfloor>"
| "to_int NaN = 0"
| "to_int PosInf = 0"
| "to_int NegInf = 0"

text \<open>
  The only error the classes raise themselves:
  \<^verbatim>\<open>new Error("Semaphore capacity must be a positive integer")\<close>.
\<close>

datatype error = InvalidCapacity

text \<open>
  A release closure is identified by the order of its creation: \<open>released s ! t\<close> is
  the closure-local flag \<^verbatim>\<open>released\<close> of the \<open>t\<close>-th closure that \<^verbatim>\<open>release()\<close> built.
  A queued callback is identified by the future it resolves: the \<open>w\<close>-th call of
  \<^verbatim>\<open>future<Release>()\<close>. The futures resolved so far are recorded in \<open>resolved\<close>, each with
  the token it was resolved with, oldest first.
\<close>

type_synonym token = nat
type_synonym waiter = nat

record semaphore =
  capacity :: int
  count :: int
  queue :: "waiter list"
  released :: "bool list"
  futures :: nat
  resolved :: "(waiter \<times> token) list"

definition Semaphore_init :: "int \<Rightarrow> semaphore" where
  "Semaphore_init c =
     \<lparr>capacity = c, count = 0, queue = [], released = [], futures = 0, resolved = []\<rparr>"

definition Semaphore_new :: "number \<Rightarrow> error + semaphore" where
  "Semaphore_new c =
     (if le_zero c \<or> \<not> isInteger c then Inl InvalidCapacity
      else Inr (Semaphore_init (to_int c)))"

definition used :: "semaphore \<Rightarrow> int" where
  "used s = count s"

definition permits :: "semaphore \<Rightarrow> int" where
  "permits s = capacity s - count s"

text \<open>\<^verbatim>\<open>private release(): Release\<close> builds a closure with \<^verbatim>\<open>released = false\<close>.\<close>

definition release :: "semaphore \<Rightarrow> token \<times> semaphore" where
  "release s = (length (released s), s\<lparr>released := released s @ [False]\<rparr>)"

definition tryAcquire :: "semaphore \<Rightarrow> token option \<times> semaphore" where
  "tryAcquire s =
     (if count s < capacity s
      then (let (t, s') = release (s\<lparr>count := count s + 1\<rparr>) in (Some t, s'))
      else (None, s))"

text \<open>
  \<^verbatim>\<open>acquire\<close> is \<^verbatim>\<open>async\<close> without an \<^verbatim>\<open>await\<close>: its body runs at the call. The promise
  it returns is either fulfilled with the token on return (\<open>Now\<close>) or is the promise of
  the future whose callback was queued (\<open>Later\<close>).
\<close>

datatype acquired = Now token | Later waiter

text \<open>
  \<^verbatim>\<open>future<T>()\<close> of \<^verbatim>\<open>async.ts\<close>: it builds a new promise and returns it together with the
  \<^verbatim>\<open>resolve\<close> and \<^verbatim>\<open>reject\<close> that the promise constructor handed out,
  \<^verbatim>\<open>[promise, resolve!, reject!]\<close>. Here \<open>future\<close> makes the next promise, pending, and
  \<open>resolve w\<close> is the resolver of promise \<open>w\<close>: its first call fulfils the promise, a
  later call changes nothing, a promise settling once. \<^verbatim>\<open>semaphore.ts\<close> takes
  \<^verbatim>\<open>[promise, resolve]\<close> and never calls \<^verbatim>\<open>reject\<close>.
\<close>

definition future :: "semaphore \<Rightarrow> waiter \<times> semaphore" where
  "future s = (futures s, s\<lparr>futures := futures s + 1\<rparr>)"

definition resolve :: "waiter \<Rightarrow> token \<Rightarrow> semaphore \<Rightarrow> semaphore" where
  "resolve w t s =
     (if w \<in> fst ` set (resolved s) then s else s\<lparr>resolved := resolved s @ [(w, t)]\<rparr>)"

definition acquire :: "semaphore \<Rightarrow> acquired \<times> semaphore" where
  "acquire s =
     (if count s < capacity s
      then (let (t, s') = release (s\<lparr>count := count s + 1\<rparr>) in (Now t, s'))
      else (let (w, s') = future s in (Later w, s'\<lparr>queue := queue s' @ [w]\<rparr>)))"

text \<open>The queued callback: \<^verbatim>\<open>() => { this.count++; resolve(this.release()); }\<close>.\<close>

definition callback :: "waiter \<Rightarrow> semaphore \<Rightarrow> semaphore" where
  "callback w s =
     (let (t, s') = release (s\<lparr>count := count s + 1\<rparr>) in resolve w t s')"

text \<open>Calling the closure that \<^verbatim>\<open>release()\<close> returned, for an existing closure \<open>t\<close>.\<close>

definition release_call :: "token \<Rightarrow> semaphore \<Rightarrow> bool \<times> semaphore" where
  "release_call t s =
     (if released s ! t \<or> count s \<le> 0 then (False, s)
      else
        (let s1 = s\<lparr>released := (released s)[t := True], count := count s - 1\<rparr>
         in if length (queue s1) > 0 \<and> count s1 < capacity s1
            then (case queue s1 of
                    [] \<Rightarrow> (True, s1)
                  | next # rest \<Rightarrow> (True, callback next (s1\<lparr>queue := rest\<rparr>)))
            else (True, s1)))"

subsection \<open>Mutex and TaskPool construction\<close>

definition Mutex_new :: "error + semaphore" where
  "Mutex_new = Semaphore_new (Finite 1)"

record task_pool =
  semaphore :: semaphore

definition TaskPool_new :: "number \<Rightarrow> error + task_pool" where
  "TaskPool_new c =
     (case Semaphore_new c of Inl e \<Rightarrow> Inl e | Inr s \<Rightarrow> Inr \<lparr>semaphore = s\<rparr>)"

definition concurrency :: "task_pool \<Rightarrow> int" where
  "concurrency p = capacity (semaphore p)"

definition tasks :: "task_pool \<Rightarrow> int" where
  "tasks p = used (semaphore p)"

text \<open>The spec's wording of a valid capacity: a positive integer.\<close>

definition positive_integer :: "number \<Rightarrow> bool" where
  "positive_integer c = (\<exists>n::int. 0 < n \<and> c = Finite (of_int n))"

subsection \<open>Sequences of calls on one semaphore\<close>

text \<open>
  Everything the class does to its state happens in one of three synchronous bodies:
  \<^verbatim>\<open>tryAcquire\<close>, \<^verbatim>\<open>acquire\<close> and the closure returned by \<^verbatim>\<open>release()\<close>. A history of
  the semaphore is a list of such calls; a closure can only be called once it exists.
\<close>

datatype action = TryAcquire | Acquire | Release token

fun exec :: "action \<Rightarrow> semaphore \<Rightarrow> semaphore option" where
  "exec TryAcquire s = Some (snd (tryAcquire s))"
| "exec Acquire s = Some (snd (acquire s))"
| "exec (Release t) s =
     (if t < length (released s) then Some (snd (release_call t s)) else None)"

fun run :: "action list \<Rightarrow> semaphore \<Rightarrow> semaphore option" where
  "run [] s = Some s"
| "run (a # as) s = (case exec a s of None \<Rightarrow> None | Some s' \<Rightarrow> run as s')"

text \<open>Tokens handed out whose closure has not yet released successfully.\<close>

definition outstanding :: "semaphore \<Rightarrow> nat" where
  "outstanding s = length (filter Not (released s))"

text \<open>The waiters whose future has been resolved, in the order of the \<^verbatim>\<open>resolve\<close> calls.\<close>

definition granted :: "semaphore \<Rightarrow> waiter list" where
  "granted s = map fst (resolved s)"

definition sem_ok :: "semaphore \<Rightarrow> bool" where
  "sem_ok s \<longleftrightarrow>
     1 \<le> capacity s \<and> 0 \<le> count s \<and> count s \<le> capacity s \<and>
     count s = int (outstanding s) \<and>
     (queue s \<noteq> [] \<longrightarrow> count s = capacity s) \<and>
     granted s @ queue s = [0..<futures s] \<and>
     distinct (map snd (resolved s)) \<and>
     (\<forall>t \<in> set (map snd (resolved s)). t < length (released s))"

section \<open>Callers of the semaphore: \<^verbatim>\<open>use\<close>, \<^verbatim>\<open>submit\<close>, \<^verbatim>\<open>submitAll\<close>\<close>

text \<open>
  The operation handed to \<^verbatim>\<open>use\<close> either throws at the call (\<open>Throws e\<close>), or returns a
  value or promise that settles after \<open>n\<close> further turns of the event loop with \<open>r\<close>,
  fulfilled (\<open>Inr\<close>) or rejected (\<open>Inl\<close>): \<open>Settles n r\<close>. What the operation does to the semaphore itself, if anything, is
  a client call interleaved with the activation.
\<close>

datatype ('e, 'a) task = Throws 'e | Settles nat "'e + 'a"

fun outcome :: "('e, 'a) task \<Rightarrow> 'e + 'a" where
  "outcome (Throws e) = Inl e"
| "outcome (Settles n r) = r"

text \<open>
  An activation of \<^verbatim>\<open>use\<close> is suspended at \<^verbatim>\<open>await this.acquire()\<close>, or at \<^verbatim>\<open>await fn()\<close>
  holding its local \<^verbatim>\<open>release\<close>, or has run its \<^verbatim>\<open>finally\<close> block and settled its promise.
\<close>

datatype ('e, 'a) stage = Awaiting | Running token nat | Returned "'e + 'a"

record ('e, 'a) call =
  task :: "('e, 'a) task"
  permit :: acquired
  stage :: "('e, 'a) stage"

text \<open>
  \<^verbatim>\<open>Promise.all\<close> of the runtime: an array of values filled by index, a count of the
  elements still missing, and the promise it returned, settled at most once.
\<close>

record ('e, 'a) promise_all =
  members :: "nat list"
  elements :: "'a option list"
  remaining :: nat
  result :: "('e + 'a list) option"

record ('e, 'a) world =
  sem :: semaphore
  calls :: "('e, 'a) call list"
  alls :: "('e, 'a) promise_all list"

definition boot :: "semaphore \<Rightarrow> ('e, 'a) world" where
  "boot s = \<lparr>sem = s, calls = [], alls = []\<rparr>"

text \<open>The token a promise returned by \<open>acquire\<close> is fulfilled with, if it is fulfilled.\<close>

fun token_of :: "semaphore \<Rightarrow> acquired \<Rightarrow> token option" where
  "token_of s (Now t) = Some t"
| "token_of s (Later w) = map_of (resolved s) w"

text \<open>\<^verbatim>\<open>use\<close> up to its first \<^verbatim>\<open>await\<close>: the call of \<open>acquire\<close> happens at once.\<close>

definition use :: "('e, 'a) task \<Rightarrow> ('e, 'a) world \<Rightarrow> nat \<times> ('e, 'a) world" where
  "use fn w =
     (let (p, s') = acquire (sem w)
      in (length (calls w),
          w\<lparr>sem := s', calls := calls w @ [\<lparr>task = fn, permit = p, stage = Awaiting\<rparr>]\<rparr>))"

definition settle :: "'x \<Rightarrow> 'x option \<Rightarrow> 'x option" where
  "settle x cur = (case cur of None \<Rightarrow> Some x | Some y \<Rightarrow> Some y)"

text \<open>
  The element function of index \<open>i\<close>: store the value, count down, and at zero fulfil
  with the array. No hole is left then, each element function filling its own index;
  were one left, the model keeps the promise as it is.
\<close>

definition resolveElement ::
    "nat \<Rightarrow> 'a \<Rightarrow> ('e, 'a) promise_all \<Rightarrow> ('e, 'a) promise_all" where
  "resolveElement i v a =
     (let vs = (elements a)[i := Some v]; r = remaining a - 1
      in a\<lparr>elements := vs, remaining := r,
           result := (if r = 0
                      then (case those vs of
                              Some xs \<Rightarrow> settle (Inr xs) (result a)
                            | None \<Rightarrow> result a)
                      else result a)\<rparr>)"

definition reject :: "'e \<Rightarrow> ('e, 'a) promise_all \<Rightarrow> ('e, 'a) promise_all" where
  "reject e a = a\<lparr>result := settle (Inl e) (result a)\<rparr>"

fun index_of :: "nat \<Rightarrow> nat list \<Rightarrow> nat option" where
  "index_of k [] = None"
| "index_of k (m # ms) = (if m = k then Some 0 else map_option Suc (index_of k ms))"

text \<open>What a \<^verbatim>\<open>Promise.all\<close> does when the promise of call \<open>k\<close> settles with \<open>r\<close>.\<close>

definition settle_in ::
    "nat \<Rightarrow> 'e + 'a \<Rightarrow> ('e, 'a) promise_all \<Rightarrow> ('e, 'a) promise_all" where
  "settle_in k r a =
     (case index_of k (members a) of
        None \<Rightarrow> a
      | Some i \<Rightarrow> (case r of Inl e \<Rightarrow> reject e a | Inr v \<Rightarrow> resolveElement i v a))"

definition notify :: "nat \<Rightarrow> 'e + 'a \<Rightarrow> ('e, 'a) world \<Rightarrow> ('e, 'a) world" where
  "notify k r w = w\<lparr>alls := map (settle_in k r) (alls w)\<rparr>"

text \<open>
  The end of \<^verbatim>\<open>use\<close>: the \<^verbatim>\<open>finally\<close> block calls \<^verbatim>\<open>release()\<close>, then the promise of the
  activation settles with the outcome of the operation. The reaction of a \<^verbatim>\<open>Promise.all\<close>
  that listens to this promise is taken in the same turn; the runtime runs these
  reactions in the order in which the promises settled.
\<close>

definition finish :: "nat \<Rightarrow> token \<Rightarrow> 'e + 'a \<Rightarrow> ('e, 'a) world \<Rightarrow> ('e, 'a) world" where
  "finish k t r w =
     (let (b, s') = release_call t (sem w)
      in notify k r
           (w\<lparr>sem := s', calls := (calls w)[k := (calls w ! k)\<lparr>stage := Returned r\<rparr>]\<rparr>))"

text \<open>
  One turn of activation \<open>k\<close>. It cannot run while the promise it awaits is pending, nor
  after it has returned.
\<close>

definition resume :: "nat \<Rightarrow> ('e, 'a) world \<Rightarrow> ('e, 'a) world option" where
  "resume k w =
     (if k < length (calls w)
      then (let c = calls w ! k
            in case stage c of
                 Awaiting \<Rightarrow>
                   (case token_of (sem w) (permit c) of
                      None \<Rightarrow> None
                    | Some t \<Rightarrow>
                        (case task c of
                           Throws e \<Rightarrow> Some (finish k t (Inl e) w)
                         | Settles n r \<Rightarrow>
                             Some (w\<lparr>calls := (calls w)[k := c\<lparr>stage := Running t n\<rparr>]\<rparr>)))
               | Running t n \<Rightarrow>
                   (case n of
                      0 \<Rightarrow> Some (finish k t (outcome (task c)) w)
                    | Suc m \<Rightarrow>
                        Some (w\<lparr>calls := (calls w)[k := c\<lparr>stage := Running t m\<rparr>]\<rparr>))
               | Returned r \<Rightarrow> None)
      else None)"

subsection \<open>TaskPool\<close>

text \<open>\<^verbatim>\<open>submit(task)\<close> is \<^verbatim>\<open>this.semaphore.use(task)\<close>.\<close>

definition submit :: "('e, 'a) task \<Rightarrow> ('e, 'a) world \<Rightarrow> nat \<times> ('e, 'a) world" where
  "submit fn w = use fn w"

text \<open>\<^verbatim>\<open>tasks.map((task) => this.submit(task))\<close>: the calls are made in list order.\<close>

fun submit_each :: "('e, 'a) task list \<Rightarrow> ('e, 'a) world \<Rightarrow> nat list \<times> ('e, 'a) world" where
  "submit_each [] w = ([], w)"
| "submit_each (fn # fns) w =
     (let (k, w1) = submit fn w; (ks, w2) = submit_each fns w1 in (k # ks, w2))"

definition Promise_all :: "nat list \<Rightarrow> ('e, 'a) world \<Rightarrow> nat \<times> ('e, 'a) world" where
  "Promise_all ks w =
     (length (alls w),
      w\<lparr>alls := alls w @
         [\<lparr>members = ks, elements = replicate (length ks) None, remaining = length ks,
           result = (if ks = [] then Some (Inr []) else None)\<rparr>]\<rparr>)"

definition submitAll :: "('e, 'a) task list \<Rightarrow> ('e, 'a) world \<Rightarrow> nat \<times> ('e, 'a) world" where
  "submitAll fns w = (let (ks, w1) = submit_each fns w in Promise_all ks w1)"

subsection \<open>Histories of a semaphore and its callers\<close>

text \<open>
  The tokens that belong to activations of \<^verbatim>\<open>use\<close>. Each is held in a local variable of
  its activation, so no other code can call it.
\<close>

definition private_tokens :: "('e, 'a) world \<Rightarrow> token list" where
  "private_tokens w = List.map_filter (\<lambda>c. token_of (sem w) (permit c)) (calls w)"

text \<open>
  A history is a list of events in any order: a call by a client that holds no activation
  (\<open>tryAcquire\<close>, \<open>acquire\<close>, or one of its own release closures), a call of \<open>use\<close>, a call
  of \<open>submitAll\<close>, or one turn of a suspended activation. An event that cannot happen has
  no successor.
\<close>

datatype ('e, 'a) event =
    Client action
  | Use "('e, 'a) task"
  | SubmitAll "('e, 'a) task list"
  | Resume nat

fun allowed :: "('e, 'a) world \<Rightarrow> action \<Rightarrow> bool" where
  "allowed w (Release t) = (t \<notin> set (private_tokens w))"
| "allowed w TryAcquire = True"
| "allowed w Acquire = True"

fun step :: "('e, 'a) event \<Rightarrow> ('e, 'a) world \<Rightarrow> ('e, 'a) world option" where
  "step (Client a) w =
     (if allowed w a then map_option (\<lambda>s. w\<lparr>sem := s\<rparr>) (exec a (sem w)) else None)"
| "step (Use fn) w = Some (snd (use fn w))"
| "step (SubmitAll fns) w = Some (snd (submitAll fns w))"
| "step (Resume k) w = resume k w"

fun play :: "('e, 'a) event list \<Rightarrow> ('e, 'a) world \<Rightarrow> ('e, 'a) world option" where
  "play [] w = Some w"
| "play (e # es) w = (case step e w of None \<Rightarrow> None | Some w' \<Rightarrow> play es w')"

text \<open>
  The activations in flight: past acquisition (the promise of \<open>acquire\<close> is fulfilled with a
  token) and not yet through their \<^verbatim>\<open>finally\<close> block. Those suspended inside the operation
  are among them.
\<close>

definition holding :: "('e, 'a) world \<Rightarrow> ('e, 'a) call \<Rightarrow> bool" where
  "holding w c =
     (case stage c of
        Returned r \<Rightarrow> False
      | _ \<Rightarrow> token_of (sem w) (permit c) \<noteq> None)"

definition in_flight :: "('e, 'a) world \<Rightarrow> nat" where
  "in_flight w = length (filter (holding w) (calls w))"

definition running :: "('e, 'a) call \<Rightarrow> bool" where
  "running c = (case stage c of Running t n \<Rightarrow> True | _ \<Rightarrow> False)"

text \<open>
  The turns an activation takes from its call to its return when nothing else happens and
  its permit is granted at the call: one to resume after \<^verbatim>\<open>await this.acquire()\<close>, then
  those of the operation, then one to leave \<^verbatim>\<open>await fn()\<close>. A \<^verbatim>\<open>fn\<close> that throws at the call
  leaves in the first turn.
\<close>

fun turns :: "('e, 'a) task \<Rightarrow> nat" where
  "turns (Throws e) = 1"
| "turns (Settles n r) = n + 2"

subsection \<open>What holds of every history\<close>

definition call_ok :: "semaphore \<Rightarrow> ('e, 'a) call \<Rightarrow> bool" where
  "call_ok s c \<longleftrightarrow>
     (case permit c of
        Now t \<Rightarrow> t < length (released s) \<and> t \<notin> snd ` set (resolved s)
      | Later q \<Rightarrow> q < futures s) \<and>
     (case stage c of
        Awaiting \<Rightarrow> (\<forall>t. token_of s (permit c) = Some t \<longrightarrow> \<not> released s ! t)
      | Running t n \<Rightarrow> token_of s (permit c) = Some t \<and> \<not> released s ! t
      | Returned r \<Rightarrow>
          (\<exists>t. token_of s (permit c) = Some t \<and> released s ! t) \<and> r = outcome (task c))"

definition fulfilled :: "('e, 'a) call \<Rightarrow> bool" where
  "fulfilled c = (case stage c of Returned (Inr v) \<Rightarrow> True | _ \<Rightarrow> False)"

definition slot :: "('e, 'a) call \<Rightarrow> 'a option" where
  "slot c = (case stage c of Returned (Inr v) \<Rightarrow> Some v | _ \<Rightarrow> None)"

definition all_ok :: "('e, 'a) call list \<Rightarrow> ('e, 'a) promise_all \<Rightarrow> bool" where
  "all_ok cs a \<longleftrightarrow>
     distinct (members a) \<and> (\<forall>k \<in> set (members a). k < length cs) \<and>
     elements a = map (\<lambda>k. slot (cs ! k)) (members a) \<and>
     remaining a = length (filter (\<lambda>k. \<not> fulfilled (cs ! k)) (members a)) \<and>
     (\<forall>k \<in> set (members a). \<forall>e. stage (cs ! k) = Returned (Inl e) \<longrightarrow>
         (\<exists>e'. result a = Some (Inl e'))) \<and>
     (\<forall>e. result a = Some (Inl e) \<longrightarrow>
         (\<exists>k \<in> set (members a). stage (cs ! k) = Returned (Inl e))) \<and>
     (\<forall>xs. result a = Some (Inr xs) \<longrightarrow> map Some xs = elements a) \<and>
     (result a = None \<longrightarrow> 0 < remaining a)"

definition world_ok :: "('e, 'a) world \<Rightarrow> bool" where
  "world_ok w \<longleftrightarrow>
     sem_ok (sem w) \<and> distinct (map permit (calls w)) \<and>
     (\<forall>c \<in> set (calls w). call_ok (sem w) c) \<and>
     (\<forall>a \<in> set (alls w). all_ok (calls w) a)"

text \<open>What a step leaves alone: the tasks of the activations, the members of each
  \<^verbatim>\<open>Promise.all\<close>, and a result that is already settled.\<close>

definition keeps :: "('e, 'a) world \<Rightarrow> ('e, 'a) world \<Rightarrow> bool" where
  "keeps w w' \<longleftrightarrow>
     length (calls w) \<le> length (calls w') \<and>
     (\<forall>k < length (calls w). task (calls w' ! k) = task (calls w ! k)) \<and>
     length (alls w) \<le> length (alls w') \<and>
     (\<forall>a < length (alls w). members (alls w' ! a) = members (alls w ! a) \<and>
        (\<forall>x. result (alls w ! a) = Some x \<longrightarrow> result (alls w' ! a) = Some x))"

section \<open>Construction\<close>

lemma positive_integer_iff: "positive_integer c = (\<not> le_zero c \<and> isInteger c)"
proof (cases c)
  case (Finite x)
  show ?thesis
  proof
    assume "positive_integer c"
    then obtain n :: int where "0 < n" "x = of_int n"
      using Finite by (auto simp: positive_integer_def)
    then show "\<not> le_zero c \<and> isInteger c" using Finite by simp
  next
    assume a: "\<not> le_zero c \<and> isInteger c"
    then have "0 < x" and e: "of_int \<lfloor>x\<rfloor> = x" using Finite by auto
    then have "0 < \<lfloor>x\<rfloor>" by linarith
    with e show "positive_integer c"
      unfolding positive_integer_def Finite by (metis)
  qed
qed (auto simp: positive_integer_def)


text \<open>
  C9. Construction of a Semaphore, and of a TaskPool (which only constructs a Semaphore),
  fails with InvalidCapacity exactly when the capacity is not a positive integer; for a
  positive integer capacity \<open>n\<close> it succeeds with \<open>used = 0\<close>, \<open>permits = n\<close> and an empty
  queue.
\<close>

theorem construction_positive_integer:
  "(Semaphore_new c = Inl InvalidCapacity) = (\<not> positive_integer c) \<and>
   (TaskPool_new c = Inl InvalidCapacity) = (\<not> positive_integer c) \<and>
   (0 < n \<longrightarrow>
     (\<exists>s. Semaphore_new (Finite (of_int n)) = Inr s \<and>
          TaskPool_new (Finite (of_int n)) = Inr \<lparr>semaphore = s\<rparr> \<and>
          capacity s = n \<and> used s = 0 \<and> permits s = n \<and> queue s = [] \<and>
          concurrency \<lparr>semaphore = s\<rparr> = n \<and> tasks \<lparr>semaphore = s\<rparr> = 0))"
proof (intro conjI impI)
  show "(Semaphore_new c = Inl InvalidCapacity) = (\<not> positive_integer c)"
    by (simp add: Semaphore_new_def positive_integer_iff)
  show "(TaskPool_new c = Inl InvalidCapacity) = (\<not> positive_integer c)"
    by (simp add: TaskPool_new_def Semaphore_new_def positive_integer_iff)
next
  assume n: "0 < n"
  let ?s = "Semaphore_init n"
  have new: "Semaphore_new (Finite (of_int n)) = Inr ?s"
    using n by (simp add: Semaphore_new_def)
  have "TaskPool_new (Finite (of_int n)) = Inr \<lparr>semaphore = ?s\<rparr>"
    by (simp add: TaskPool_new_def new)
  moreover have "capacity ?s = n \<and> used ?s = 0 \<and> permits ?s = n \<and> queue ?s = []"
    by (simp add: Semaphore_init_def used_def permits_def)
  moreover have "concurrency \<lparr>semaphore = ?s\<rparr> = n \<and> tasks \<lparr>semaphore = ?s\<rparr> = 0"
    by (simp add: concurrency_def tasks_def Semaphore_init_def used_def)
  ultimately show "\<exists>s. Semaphore_new (Finite (of_int n)) = Inr s \<and>
          TaskPool_new (Finite (of_int n)) = Inr \<lparr>semaphore = s\<rparr> \<and>
          capacity s = n \<and> used s = 0 \<and> permits s = n \<and> queue s = [] \<and>
          concurrency \<lparr>semaphore = s\<rparr> = n \<and> tasks \<lparr>semaphore = s\<rparr> = 0"
    using new by blast
qed

theorem construction_positive_integer_witness:
  "(0::int) < 3 \<and>
   Semaphore_new (Finite 3) = Inr (Semaphore_init 3) \<and>
   TaskPool_new (Finite 3) = Inr \<lparr>semaphore = Semaphore_init 3\<rparr> \<and>
   used (Semaphore_init 3) = 0 \<and> permits (Semaphore_init 3) = 3 \<and>
   queue (Semaphore_init 3) = [] \<and>
   Semaphore_new (Finite 0) = Inl InvalidCapacity \<and>
   Semaphore_new (Finite (- 1)) = Inl InvalidCapacity \<and>
   Semaphore_new (Finite (3 / 2)) = Inl InvalidCapacity \<and>
   Semaphore_new NaN = Inl InvalidCapacity \<and>
   TaskPool_new (Finite 0) = Inl InvalidCapacity"
proof -
  have "\<exists>s. Semaphore_new (Finite (of_int 3)) = Inr s \<and>
          TaskPool_new (Finite (of_int 3)) = Inr \<lparr>semaphore = s\<rparr> \<and>
          capacity s = 3 \<and> used s = 0 \<and> permits s = 3 \<and> queue s = [] \<and>
          concurrency \<lparr>semaphore = s\<rparr> = 3 \<and> tasks \<lparr>semaphore = s\<rparr> = 0"
    using construction_positive_integer [of "Finite 3" 3] by simp
  moreover have "Semaphore_new (Finite (of_int 3)) = Inr (Semaphore_init 3)"
    by (simp add: Semaphore_new_def)
  ultimately have
    "TaskPool_new (Finite 3) = Inr \<lparr>semaphore = Semaphore_init 3\<rparr> \<and>
     used (Semaphore_init 3) = 0 \<and> permits (Semaphore_init 3) = 3 \<and>
     queue (Semaphore_init 3) = []"
    by auto
  moreover have "Semaphore_new (Finite 3) = Inr (Semaphore_init 3)"
    by (simp add: Semaphore_new_def)
  moreover have "Semaphore_new (Finite 0) = Inl InvalidCapacity"
    "Semaphore_new (Finite (- 1)) = Inl InvalidCapacity"
    "Semaphore_new (Finite (3 / 2)) = Inl InvalidCapacity"
    "Semaphore_new NaN = Inl InvalidCapacity"
    "TaskPool_new (Finite 0) = Inl InvalidCapacity"
    by (simp_all add: Semaphore_new_def TaskPool_new_def)
  ultimately show ?thesis by simp
qed

section \<open>tryAcquire\<close>

text \<open>
  C5. \<open>tryAcquire\<close> succeeds exactly when \<open>used < capacity\<close> at the call. On success
  \<open>used\<close> grows by exactly 1 and the token returned is a new closure, not yet released;
  on failure the result is absence and the state, the queue included, is unchanged.
\<close>

theorem tryAcquire_iff_below_capacity:
  "(fst (tryAcquire s) \<noteq> None) = (used s < capacity s) \<and>
   (used s < capacity s \<longrightarrow>
      (\<exists>t s'. tryAcquire s = (Some t, s') \<and> used s' = used s + 1 \<and>
         t = length (released s) \<and> released s' = released s @ [False] \<and>
         \<not> released s' ! t \<and> queue s' = queue s \<and> capacity s' = capacity s \<and>
         resolved s' = resolved s \<and> futures s' = futures s)) \<and>
   (\<not> used s < capacity s \<longrightarrow> tryAcquire s = (None, s))"
  by (simp add: tryAcquire_def release_def used_def)

theorem tryAcquire_iff_below_capacity_witness:
  "used (Semaphore_init 1) < capacity (Semaphore_init 1) \<and>
   tryAcquire (Semaphore_init 1) = (Some 0, (Semaphore_init 1)\<lparr>count := 1, released := [False]\<rparr>) \<and>
   \<not> used ((Semaphore_init 1)\<lparr>count := 1, released := [False]\<rparr>)
       < capacity ((Semaphore_init 1)\<lparr>count := 1, released := [False]\<rparr>) \<and>
   tryAcquire ((Semaphore_init 1)\<lparr>count := 1, released := [False]\<rparr>)
     = (None, (Semaphore_init 1)\<lparr>count := 1, released := [False]\<rparr>)"
proof -
  have a: "used (Semaphore_init 1) < capacity (Semaphore_init 1)"
    by (simp add: used_def Semaphore_init_def)
  have b: "\<not> used ((Semaphore_init 1)\<lparr>count := 1, released := [False]\<rparr>)
       < capacity ((Semaphore_init 1)\<lparr>count := 1, released := [False]\<rparr>)"
    by (simp add: used_def Semaphore_init_def)
  from a tryAcquire_iff_below_capacity [of "Semaphore_init 1"]
  obtain t s' where "tryAcquire (Semaphore_init 1) = (Some t, s')"
    "t = length (released (Semaphore_init 1))" by blast
  then have "fst (tryAcquire (Semaphore_init 1)) = Some 0"
    by (simp add: Semaphore_init_def)
  then have c: "tryAcquire (Semaphore_init 1)
      = (Some 0, (Semaphore_init 1)\<lparr>count := 1, released := [False]\<rparr>)"
    by (simp add: tryAcquire_def release_def Semaphore_init_def)
  from b tryAcquire_iff_below_capacity
    [of "(Semaphore_init 1)\<lparr>count := 1, released := [False]\<rparr>"]
  have d: "tryAcquire ((Semaphore_init 1)\<lparr>count := 1, released := [False]\<rparr>)
     = (None, (Semaphore_init 1)\<lparr>count := 1, released := [False]\<rparr>)"
    by blast
  from a b c d show ?thesis by blast
qed
section \<open>Invariants of the semaphore\<close>

lemma filter_Not_update:
  "t < length xs \<Longrightarrow> \<not> xs ! t \<Longrightarrow>
   Suc (length (filter Not (xs[t := True]))) = length (filter Not xs)"
proof (induction xs arbitrary: t)
  case Nil
  then show ?case by simp
next
  case (Cons x xs)
  then show ?case by (cases t) auto
qed

lemma sem_ok_init: "1 \<le> c \<Longrightarrow> sem_ok (Semaphore_init c)"
  by (simp add: sem_ok_def Semaphore_init_def outstanding_def granted_def)

lemma sem_ok_new: "Semaphore_new c = Inr s \<Longrightarrow> sem_ok s"
proof -
  assume a: "Semaphore_new c = Inr s"
  then have p: "\<not> le_zero c" "isInteger c" and s: "s = Semaphore_init (to_int c)"
    by (auto simp: Semaphore_new_def split: if_splits)
  have "1 \<le> to_int c"
  proof (cases c)
    case (Finite x)
    with p have "0 < x" "of_int \<lfloor>x\<rfloor> = x" by auto
    then have "0 < \<lfloor>x\<rfloor>" by linarith
    then show ?thesis using Finite by simp
  qed (use p in auto)
  with s show ?thesis by (simp add: sem_ok_init)
qed

lemma sem_ok_tryAcquire: "sem_ok s \<Longrightarrow> sem_ok (snd (tryAcquire s))"
  by (auto simp: sem_ok_def tryAcquire_def release_def outstanding_def granted_def
      less_Suc_eq)

lemma sem_ok_acquire: "sem_ok s \<Longrightarrow> sem_ok (snd (acquire s))"
  by (auto simp: sem_ok_def acquire_def future_def release_def outstanding_def granted_def
      less_Suc_eq)

lemma queued_not_granted:
  assumes "sem_ok s" and "queue s = w # ws"
  shows "w \<notin> fst ` set (resolved s)"
proof -
  have "distinct (granted s @ queue s)" using assms(1) by (simp add: sem_ok_def)
  then show ?thesis using assms(2) by (auto simp: granted_def)
qed

lemma release_call_released:
  "released s ! t \<or> count s \<le> 0 \<Longrightarrow> release_call t s = (False, s)"
  by (simp add: release_call_def)

lemma release_call_empty_queue:
  "\<not> released s ! t \<Longrightarrow> 0 < count s \<Longrightarrow> queue s = [] \<Longrightarrow>
   release_call t s = (True, s\<lparr>released := (released s)[t := True], count := count s - 1\<rparr>)"
  by (simp add: release_call_def)

lemma release_call_handoff:
  assumes "sem_ok s" and "\<not> released s ! t" and "0 < count s" and "queue s = w # ws"
  shows "release_call t s =
     (True, s\<lparr>released := (released s)[t := True] @ [False], count := count s, queue := ws,
        resolved := resolved s @ [(w, length (released s))]\<rparr>)"
proof -
  have "count s \<le> capacity s" using assms(1) by (simp add: sem_ok_def)
  then show ?thesis
    using assms(2-4) queued_not_granted [OF assms(1,4)]
    by (simp add: release_call_def callback_def release_def resolve_def Let_def)
qed

lemma sem_ok_release_call:
  assumes ok: "sem_ok s" and t: "t < length (released s)"
  shows "sem_ok (snd (release_call t s))"
proof (cases "released s ! t \<or> count s \<le> 0")
  case True
  then show ?thesis using ok by (simp add: release_call_def)
next
  case False
  then have nr: "\<not> released s ! t" and pos: "0 < count s" by auto
  from filter_Not_update [OF t nr]
  have dec: "Suc (length (filter Not ((released s)[t := True]))) = outstanding s"
    by (simp add: outstanding_def)
  show ?thesis
  proof (cases "queue s")
    case Nil
    show ?thesis
      unfolding release_call_empty_queue [OF nr pos Nil]
      using ok Nil dec
      by (auto simp: sem_ok_def outstanding_def granted_def)
  next
    case (Cons w ws)
    then have full: "count s = capacity s" using ok by (simp add: sem_ok_def)
    have fifo: "granted s @ w # ws = [0..<futures s]"
      using ok Cons by (simp add: sem_ok_def)
    show ?thesis
      unfolding release_call_handoff [OF ok nr pos Cons]
      using ok dec fifo Cons full
      by (auto simp: sem_ok_def outstanding_def granted_def less_Suc_eq)
  qed
qed

lemma sem_ok_exec: "sem_ok s \<Longrightarrow> exec a s = Some s' \<Longrightarrow> sem_ok s'"
  by (cases a)
    (auto simp: sem_ok_tryAcquire sem_ok_acquire sem_ok_release_call split: if_splits)

lemma sem_ok_run: "sem_ok s \<Longrightarrow> run as s = Some s' \<Longrightarrow> sem_ok s'"
proof (induction as arbitrary: s)
  case Nil
  then show ?case by simp
next
  case (Cons a as)
  then show ?case by (auto split: option.splits dest: sem_ok_exec)
qed

lemma outstanding_pos:
  "t < length (released s) \<Longrightarrow> \<not> released s ! t \<Longrightarrow> 0 < outstanding s"
  unfolding outstanding_def using filter_Not_update [of t "released s"] by linarith

lemma released_stays_exec:
  "exec a s = Some s' \<Longrightarrow> t < length (released s) \<Longrightarrow> released s ! t \<Longrightarrow>
   t < length (released s') \<and> released s' ! t"
  by (cases a)
    (auto simp: tryAcquire_def acquire_def future_def resolve_def release_call_def resolve_def callback_def release_def
      Let_def nth_append nth_list_update split: if_splits list.splits)

lemma released_stays_run:
  "run as s = Some s' \<Longrightarrow> t < length (released s) \<Longrightarrow> released s ! t \<Longrightarrow>
   t < length (released s') \<and> released s' ! t"
proof (induction as arbitrary: s)
  case Nil
  then show ?case by simp
next
  case (Cons a as)
  from Cons.prems(1) obtain s1 where e: "exec a s = Some s1" and r: "run as s1 = Some s'"
    by (auto split: option.splits)
  from released_stays_exec [OF e Cons.prems(2,3)] Cons.IH [OF r] show ?case by blast
qed

section \<open>Permit accounting\<close>

text \<open>
  C8. At any instant between operations, \<open>used\<close> equals the number of outstanding
  tokens: the closures built by \<open>tryAcquire\<close>, \<open>acquire\<close> or the hand-off in a release whose
  flag \<^verbatim>\<open>released\<close> is still false.
\<close>

theorem used_eq_outstanding:
  "Semaphore_new c = Inr s0 \<Longrightarrow> run as s0 = Some s \<Longrightarrow> used s = int (outstanding s)"
  using sem_ok_run [OF sem_ok_new] by (simp add: sem_ok_def used_def)

theorem used_eq_outstanding_witness:
  "Semaphore_new (Finite 2) = Inr (Semaphore_init 2) \<and>
   run [TryAcquire, Acquire, Acquire, Release 0, Release 0] (Semaphore_init 2) =
     Some \<lparr>capacity = 2, count = 2, queue = [], released = [True, False, False],
           futures = 1, resolved = [(0, 2)]\<rparr> \<and>
   used \<lparr>capacity = 2, count = 2, queue = [], released = [True, False, False],
           futures = 1, resolved = [(0, 2)]\<rparr> = 2 \<and>
   outstanding \<lparr>capacity = 2, count = 2, queue = [], released = [True, False, False],
           futures = 1, resolved = [(0, 2)]\<rparr> = 2"
proof -
  have n: "Semaphore_new (Finite 2) = Inr (Semaphore_init 2)"
    by (simp add: Semaphore_new_def)
  have r: "run [TryAcquire, Acquire, Acquire, Release 0, Release 0] (Semaphore_init 2) =
     Some \<lparr>capacity = 2, count = 2, queue = [], released = [True, False, False],
           futures = 1, resolved = [(0, 2)]\<rparr>"
    by (simp add: Semaphore_init_def tryAcquire_def acquire_def future_def resolve_def release_call_def resolve_def callback_def release_def Let_def)
  have u: "used \<lparr>capacity = 2, count = 2, queue = [], released = [True, False, False],
           futures = 1, resolved = [(0, 2)]\<rparr> = 2"
    by (simp add: used_def)
  from used_eq_outstanding [OF n r] u n r show ?thesis by simp
qed

section \<open>The wait queue\<close>

text \<open>
  C10. Whenever the wait queue is non-empty, \<open>used\<close> equals \<open>capacity\<close>. So \<open>tryAcquire\<close>
  returns absence while anyone is queued, and a successful release made then passes the
  freed slot to the head waiter and leaves \<open>used\<close> as it was.
\<close>

theorem queue_nonempty_full:
  assumes "Semaphore_new c = Inr s0" and "run as s0 = Some s" and "queue s = w # ws"
  shows "used s = capacity s \<and> tryAcquire s = (None, s) \<and>
    (\<forall>t < length (released s). fst (release_call t s) \<longrightarrow>
        used (snd (release_call t s)) = used s \<and>
        queue (snd (release_call t s)) = ws \<and>
        resolved (snd (release_call t s)) = resolved s @ [(w, length (released s))] \<and>
        \<not> released (snd (release_call t s)) ! length (released s))"
proof -
  have ok: "sem_ok s" using sem_ok_run [OF sem_ok_new] assms(1,2) .
  then have full: "count s = capacity s" and pos: "1 \<le> capacity s"
    using assms(3) by (simp_all add: sem_ok_def)
  have a: "used s = capacity s" using full by (simp add: used_def)
  have b: "tryAcquire s = (None, s)" using full by (simp add: tryAcquire_def)
  have c: "used (snd (release_call t s)) = used s \<and>
        queue (snd (release_call t s)) = ws \<and>
        resolved (snd (release_call t s)) = resolved s @ [(w, length (released s))] \<and>
        \<not> released (snd (release_call t s)) ! length (released s)"
    if "fst (release_call t s)" for t
  proof -
    from that have nr: "\<not> released s ! t" and p: "0 < count s"
      by (auto simp: release_call_def split: if_splits)
    show ?thesis
      unfolding release_call_handoff [OF ok nr p assms(3)]
      by (simp add: used_def nth_append)
  qed
  from a b c show ?thesis by blast
qed

theorem queue_nonempty_full_witness:
  "Semaphore_new (Finite 1) = Inr (Semaphore_init 1) \<and>
   run [Acquire, Acquire, Acquire] (Semaphore_init 1) =
     Some \<lparr>capacity = 1, count = 1, queue = [0, 1], released = [False],
           futures = 2, resolved = []\<rparr> \<and>
   tryAcquire \<lparr>capacity = 1, count = 1, queue = [0, 1], released = [False],
           futures = 2, resolved = []\<rparr> =
     (None, \<lparr>capacity = 1, count = 1, queue = [0, 1], released = [False],
           futures = 2, resolved = []\<rparr>) \<and>
   release_call 0 \<lparr>capacity = 1, count = 1, queue = [0, 1], released = [False],
           futures = 2, resolved = []\<rparr> =
     (True, \<lparr>capacity = 1, count = 1, queue = [1], released = [True, False],
           futures = 2, resolved = [(0, 1)]\<rparr>) \<and>
   used \<lparr>capacity = 1, count = 1, queue = [1], released = [True, False],
           futures = 2, resolved = [(0, 1)]\<rparr> =
   used \<lparr>capacity = 1, count = 1, queue = [0, 1], released = [False],
           futures = 2, resolved = []\<rparr>"
proof -
  let ?s = "\<lparr>capacity = 1, count = 1, queue = [0, 1], released = [False],
           futures = 2, resolved = []\<rparr>"
  have n: "Semaphore_new (Finite 1) = Inr (Semaphore_init 1)"
    by (simp add: Semaphore_new_def)
  have r: "run [Acquire, Acquire, Acquire] (Semaphore_init 1) = Some ?s"
    by (simp add: Semaphore_init_def acquire_def future_def release_def Let_def)
  have q: "queue ?s = 0 # [1]" by simp
  have rc: "release_call 0 ?s =
     (True, \<lparr>capacity = 1, count = 1, queue = [1], released = [True, False],
           futures = 2, resolved = [(0, 1)]\<rparr>)"
    by (simp add: release_call_def resolve_def callback_def release_def Let_def)
  note t = queue_nonempty_full [OF n r q]
  from t have ta: "tryAcquire ?s = (None, ?s)" by blast
  have "0 < length (released ?s)" and "fst (release_call 0 ?s)"
    unfolding rc by simp_all
  with t have "used (snd (release_call 0 ?s)) = used ?s" by blast
  then have u: "used \<lparr>capacity = 1, count = 1, queue = [1], released = [True, False],
           futures = 2, resolved = [(0, 1)]\<rparr> = used ?s"
    unfolding rc snd_conv .
  from n r ta rc u show ?thesis by (intro conjI)
qed

section \<open>FIFO hand-off\<close>

text \<open>
  C1. An \<open>acquire\<close> that finds the semaphore at capacity takes the next waiter number
  and is appended at the tail of the queue, so waiters are numbered in the order in which
  they were enqueued. In every history the waiters granted so far, in the order of the grants, followed by the waiters still
  queued, are exactly all the enqueued waiters in enqueue order. So grants follow the
  enqueue order and no waiter is granted a permit while one enqueued earlier still waits;
  a release that hands off always grants the head of the queue.
\<close>

theorem grants_in_enqueue_order:
  assumes "Semaphore_new c = Inr s0" and "run as s0 = Some s"
  shows "(\<not> used s < capacity s \<longrightarrow>
       acquire s = (Later (futures s),
         s\<lparr>futures := Suc (futures s), queue := queue s @ [futures s]\<rparr>)) \<and>
    granted s @ queue s = [0..<futures s] \<and>
    sorted_wrt (<) (granted s) \<and>
    (\<forall>w \<in> set (queue s). \<forall>w' \<in> set (granted s). \<not> w < w') \<and>
    (\<forall>t < length (released s). fst (release_call t s) \<and> queue s \<noteq> [] \<longrightarrow>
       granted (snd (release_call t s)) = granted s @ [hd (queue s)] \<and>
       queue (snd (release_call t s)) = tl (queue s))"
proof -
  have ok: "sem_ok s" using sem_ok_run [OF sem_ok_new] assms .
  then have fifo: "granted s @ queue s = [0..<futures s]" by (simp add: sem_ok_def)
  have "sorted_wrt (<) (granted s @ queue s)" unfolding fifo by simp
  then have a: "sorted_wrt (<) (granted s)"
    and b: "\<forall>w' \<in> set (granted s). \<forall>w \<in> set (queue s). w' < w"
    by (auto simp: sorted_wrt_append)
  from b have b': "\<forall>w \<in> set (queue s). \<forall>w' \<in> set (granted s). \<not> w < w'"
    by (meson less_asym)
  have c: "granted (snd (release_call t s)) = granted s @ [hd (queue s)] \<and>
       queue (snd (release_call t s)) = tl (queue s)"
    if "fst (release_call t s)" and "queue s \<noteq> []" for t
  proof -
    from that(2) obtain w ws where q: "queue s = w # ws" by (cases "queue s") auto
    from that(1) have nr: "\<not> released s ! t" and p: "0 < count s"
      by (auto simp: release_call_def split: if_splits)
    show ?thesis
      unfolding release_call_handoff [OF ok nr p q] by (simp add: granted_def q)
  qed
  have e: "\<not> used s < capacity s \<longrightarrow>
       acquire s = (Later (futures s),
         s\<lparr>futures := Suc (futures s), queue := queue s @ [futures s]\<rparr>)"
    by (simp add: acquire_def future_def used_def)
  from e fifo a b' c show ?thesis by blast
qed

theorem grants_in_enqueue_order_witness:
  "Semaphore_new (Finite 1) = Inr (Semaphore_init 1) \<and>
   run [Acquire, Acquire, Acquire, Acquire, Release 0] (Semaphore_init 1) =
     Some \<lparr>capacity = 1, count = 1, queue = [1, 2], released = [True, False],
           futures = 3, resolved = [(0, 1)]\<rparr> \<and>
   granted \<lparr>capacity = 1, count = 1, queue = [1, 2], released = [True, False],
           futures = 3, resolved = [(0, 1)]\<rparr> @ [1, 2] = [0..<3] \<and>
   acquire \<lparr>capacity = 1, count = 1, queue = [1, 2], released = [True, False],
           futures = 3, resolved = [(0, 1)]\<rparr> =
     (Later 3, \<lparr>capacity = 1, count = 1, queue = [1, 2, 3], released = [True, False],
           futures = 4, resolved = [(0, 1)]\<rparr>) \<and>
   release_call 1 \<lparr>capacity = 1, count = 1, queue = [1, 2], released = [True, False],
           futures = 3, resolved = [(0, 1)]\<rparr> =
     (True, \<lparr>capacity = 1, count = 1, queue = [2], released = [True, True, False],
           futures = 3, resolved = [(0, 1), (1, 2)]\<rparr>) \<and>
   run [Acquire, Acquire, Acquire, Acquire, Release 0, Release 1, Release 2]
       (Semaphore_init 1) =
     Some \<lparr>capacity = 1, count = 1, queue = [], released = [True, True, True, False],
           futures = 3, resolved = [(0, 1), (1, 2), (2, 3)]\<rparr>"
proof -
  let ?s = "\<lparr>capacity = 1, count = 1, queue = [1, 2], released = [True, False],
           futures = 3, resolved = [(0, 1)]\<rparr>"
  have n: "Semaphore_new (Finite 1) = Inr (Semaphore_init 1)"
    by (simp add: Semaphore_new_def)
  have r: "run [Acquire, Acquire, Acquire, Acquire, Release 0] (Semaphore_init 1) = Some ?s"
    by (simp add: Semaphore_init_def acquire_def future_def resolve_def release_call_def resolve_def callback_def
        release_def Let_def)
  have rc: "release_call 1 ?s =
     (True, \<lparr>capacity = 1, count = 1, queue = [2], released = [True, True, False],
           futures = 3, resolved = [(0, 1), (1, 2)]\<rparr>)"
    by (simp add: release_call_def resolve_def callback_def release_def Let_def)
  have r3: "run [Acquire, Acquire, Acquire, Acquire, Release 0, Release 1, Release 2]
       (Semaphore_init 1) =
     Some \<lparr>capacity = 1, count = 1, queue = [], released = [True, True, True, False],
           futures = 3, resolved = [(0, 1), (1, 2), (2, 3)]\<rparr>"
    by (simp add: Semaphore_init_def acquire_def future_def resolve_def release_call_def resolve_def callback_def
        release_def Let_def)
  note t = grants_in_enqueue_order [OF n r]
  from t have "granted ?s @ queue ?s = [0..<futures ?s]" by blast
  then have g: "granted ?s @ [1, 2] = [0..<3]" by simp
  have "\<not> used ?s < capacity ?s" by (simp add: used_def)
  with t have "acquire ?s = (Later (futures ?s),
      ?s\<lparr>futures := Suc (futures ?s), queue := queue ?s @ [futures ?s]\<rparr>)"
    by blast
  then have a: "acquire ?s =
     (Later 3, \<lparr>capacity = 1, count = 1, queue = [1, 2, 3], released = [True, False],
           futures = 4, resolved = [(0, 1)]\<rparr>)"
    by simp
  from n r g a rc r3 show ?thesis by (intro conjI)
qed

section \<open>Releasing a token\<close>

text \<open>
  C3, as stated, asks that the first call of a token's release lowers \<open>used\<close> by exactly 1.
  On a semaphore of capacity 1 that is held while one acquirer waits, the first release
  of the held token returns true and \<open>used\<close> is 1 before and after: the slot goes to the
  waiter.
\<close>

theorem first_release_decrements_counterexample:
  "Semaphore_new (Finite 1) = Inr (Semaphore_init 1) \<and>
   run [Acquire, Acquire] (Semaphore_init 1) =
     Some \<lparr>capacity = 1, count = 1, queue = [0], released = [False],
           futures = 1, resolved = []\<rparr> \<and>
   fst (release_call 0 \<lparr>capacity = 1, count = 1, queue = [0], released = [False],
           futures = 1, resolved = []\<rparr>) \<and>
   used (snd (release_call 0 \<lparr>capacity = 1, count = 1, queue = [0], released = [False],
           futures = 1, resolved = []\<rparr>)) \<noteq>
   used \<lparr>capacity = 1, count = 1, queue = [0], released = [False],
           futures = 1, resolved = []\<rparr> - 1"
  by (simp add: Semaphore_new_def Semaphore_init_def acquire_def future_def resolve_def release_call_def resolve_def callback_def release_def used_def Let_def)

text \<open>
  C3, amended. In every history, the first call of the release of a token (its flag is
  still false) returns true and sets the flag; \<open>used\<close> drops by exactly 1 when nobody is
  queued and is unchanged when the slot is handed to the head waiter. Every later call on
  that token, and any call made when the token is already released or \<open>used\<close> is 0,
  returns false and leaves the state as it was; this last holds in every state, reached
  by a history or not.
\<close>

theorem release_once:
  assumes "Semaphore_new c = Inr s0" and "run as s0 = Some s" and "t < length (released s)"
  shows "(\<not> released s ! t \<longrightarrow>
      fst (release_call t s) \<and> released (snd (release_call t s)) ! t \<and>
      used (snd (release_call t s)) = (if queue s = [] then used s - 1 else used s) \<and>
      (\<forall>bs s'. run bs (snd (release_call t s)) = Some s' \<longrightarrow>
          release_call t s' = (False, s'))) \<and>
    (released s ! t \<or> used s \<le> 0 \<longrightarrow> release_call t s = (False, s)) \<and>
    (\<forall>s' t'. released s' ! t' \<or> used s' \<le> 0 \<longrightarrow> release_call t' s' = (False, s'))"
proof (intro conjI impI)
  assume nr: "\<not> released s ! t"
  have ok: "sem_ok s" using sem_ok_run [OF sem_ok_new] assms(1,2) .
  have "0 < outstanding s" using outstanding_pos [OF assms(3) nr] .
  then have p: "0 < count s" using ok by (simp add: sem_ok_def)
  let ?s' = "snd (release_call t s)"
  have main: "fst (release_call t s) \<and> t < length (released ?s') \<and> released ?s' ! t \<and>
      used ?s' = (if queue s = [] then used s - 1 else used s)"
  proof (cases "queue s")
    case Nil
    show ?thesis
      unfolding release_call_empty_queue [OF nr p Nil]
      using assms(3) Nil by (simp add: used_def)
  next
    case (Cons w ws)
    show ?thesis
      unfolding release_call_handoff [OF ok nr p Cons]
      using assms(3) Cons by (simp add: used_def nth_append)
  qed
  then show "fst (release_call t s)" and "released ?s' ! t"
    and "used ?s' = (if queue s = [] then used s - 1 else used s)"
    by simp_all
  show "\<forall>bs s'. run bs ?s' = Some s' \<longrightarrow> release_call t s' = (False, s')"
  proof (intro allI impI)
    fix bs s' assume "run bs ?s' = Some s'"
    from released_stays_run [OF this] main have "released s' ! t" by blast
    then show "release_call t s' = (False, s')" by (simp add: release_call_released)
  qed
next
  assume "released s ! t \<or> used s \<le> 0"
  then show "release_call t s = (False, s)"
    by (simp add: release_call_released used_def)
next
  show "\<forall>s' t'. released s' ! t' \<or> used s' \<le> 0 \<longrightarrow> release_call t' s' = (False, s')"
    by (simp add: release_call_released used_def)
qed

theorem release_once_witness:
  "Semaphore_new (Finite 2) = Inr (Semaphore_init 2) \<and>
   run [TryAcquire] (Semaphore_init 2) =
     Some \<lparr>capacity = 2, count = 1, queue = [], released = [False],
           futures = 0, resolved = []\<rparr> \<and>
   release_call 0 \<lparr>capacity = 2, count = 1, queue = [], released = [False],
           futures = 0, resolved = []\<rparr> =
     (True, \<lparr>capacity = 2, count = 0, queue = [], released = [True],
           futures = 0, resolved = []\<rparr>) \<and>
   run [TryAcquire] \<lparr>capacity = 2, count = 0, queue = [], released = [True],
           futures = 0, resolved = []\<rparr> =
     Some \<lparr>capacity = 2, count = 1, queue = [], released = [True, False],
           futures = 0, resolved = []\<rparr> \<and>
   release_call 0 \<lparr>capacity = 2, count = 1, queue = [], released = [True, False],
           futures = 0, resolved = []\<rparr> =
     (False, \<lparr>capacity = 2, count = 1, queue = [], released = [True, False],
           futures = 0, resolved = []\<rparr>) \<and>
   used \<lparr>capacity = 2, count = 0, queue = [], released = [True],
           futures = 0, resolved = []\<rparr> =
   used \<lparr>capacity = 2, count = 1, queue = [], released = [False],
           futures = 0, resolved = []\<rparr> - 1 \<and>
   release_call 0 \<lparr>capacity = 2, count = 0, queue = [], released = [False],
           futures = 0, resolved = []\<rparr> =
     (False, \<lparr>capacity = 2, count = 0, queue = [], released = [False],
           futures = 0, resolved = []\<rparr>)"
proof -
  let ?s = "\<lparr>capacity = 2, count = 1, queue = [], released = [False],
           futures = 0, resolved = []\<rparr>"
  let ?s1 = "\<lparr>capacity = 2, count = 0, queue = [], released = [True],
           futures = 0, resolved = []\<rparr>"
  let ?s2 = "\<lparr>capacity = 2, count = 1, queue = [], released = [True, False],
           futures = 0, resolved = []\<rparr>"
  have n: "Semaphore_new (Finite 2) = Inr (Semaphore_init 2)"
    by (simp add: Semaphore_new_def)
  have r: "run [TryAcquire] (Semaphore_init 2) = Some ?s"
    by (simp add: Semaphore_init_def tryAcquire_def release_def Let_def)
  have t: "0 < length (released ?s)" and nr: "\<not> released ?s ! 0" by simp_all
  have rc: "release_call 0 ?s = (True, ?s1)"
    by (simp add: release_call_def)
  have r2: "run [TryAcquire] ?s1 = Some ?s2"
    by (simp add: tryAcquire_def release_def Let_def)
  from release_once [OF n r t] nr
  have "\<forall>bs s'. run bs (snd (release_call 0 ?s)) = Some s' \<longrightarrow>
          release_call 0 s' = (False, s')" by blast
  then have "run [TryAcquire] ?s1 = Some ?s2 \<longrightarrow> release_call 0 ?s2 = (False, ?s2)"
    unfolding rc snd_conv by blast
  with r2 have f: "release_call 0 ?s2 = (False, ?s2)" by blast
  from release_once [OF n r t] nr
  have "used (snd (release_call 0 ?s)) = (if queue ?s = [] then used ?s - 1 else used ?s)"
    by blast
  then have u: "used ?s1 = used ?s - 1" unfolding rc snd_conv by simp
  let ?z = "\<lparr>capacity = 2, count = 0, queue = [], released = [False],
           futures = 0, resolved = []\<rparr>"
  from release_once [OF n r t]
  have "\<forall>s' t'. released s' ! t' \<or> used s' \<le> 0 \<longrightarrow> release_call t' s' = (False, s')"
    by blast
  then have "released ?z ! 0 \<or> used ?z \<le> 0 \<longrightarrow> release_call 0 ?z = (False, ?z)"
    by blast
  then have z: "release_call 0 ?z = (False, ?z)" by (simp add: used_def)
  from n r rc r2 f u z show ?thesis by (intro conjI)
qed

section \<open>Invariants of \<^verbatim>\<open>Promise.all\<close>\<close>

lemma index_of_None: "index_of k ms = None \<longleftrightarrow> k \<notin> set ms"
  by (induction ms) auto

lemma index_of_split: "k \<notin> set pre \<Longrightarrow> index_of k (pre @ k # post) = Some (length pre)"
  by (induction pre) auto

lemma those_SomeD: "those vs = Some xs \<Longrightarrow> map Some xs = vs"
proof (induction vs arbitrary: xs)
  case Nil
  then show ?case by simp
next
  case (Cons v vs)
  then show ?case by (auto split: option.splits)
qed

lemma those_total: "\<forall>v \<in> set vs. v \<noteq> None \<Longrightarrow> \<exists>xs. those vs = Some xs"
proof (induction vs)
  case Nil
  then show ?case by simp
next
  case (Cons v vs)
  then show ?case by (cases v) auto
qed

lemma all_okI:
  assumes "distinct (members a)" and "\<forall>k \<in> set (members a). k < length cs"
    and "elements a = map (\<lambda>k. slot (cs ! k)) (members a)"
    and "remaining a = length (filter (\<lambda>k. \<not> fulfilled (cs ! k)) (members a))"
    and "\<forall>k \<in> set (members a). \<forall>e. stage (cs ! k) = Returned (Inl e) \<longrightarrow>
         (\<exists>e'. result a = Some (Inl e'))"
    and "\<forall>e. result a = Some (Inl e) \<longrightarrow>
         (\<exists>k \<in> set (members a). stage (cs ! k) = Returned (Inl e))"
    and "\<forall>xs. result a = Some (Inr xs) \<longrightarrow> map Some xs = elements a"
    and "result a = None \<longrightarrow> 0 < remaining a"
  shows "all_ok cs a"
  unfolding all_ok_def using assms by blast

lemma all_ok_similar:
  assumes "all_ok cs a" and "length cs \<le> length cs'"
    and sl: "\<forall>m \<in> set (members a). slot (cs' ! m) = slot (cs ! m)"
    and fu: "\<forall>m \<in> set (members a). fulfilled (cs' ! m) = fulfilled (cs ! m)"
    and fa: "\<forall>m \<in> set (members a). \<forall>e.
           (stage (cs' ! m) = Returned (Inl e)) = (stage (cs ! m) = Returned (Inl e))"
  shows "all_ok cs' a"
proof -
  have e: "map (\<lambda>k. slot (cs' ! k)) (members a) = map (\<lambda>k. slot (cs ! k)) (members a)"
    using sl by simp
  have f: "filter (\<lambda>k. \<not> fulfilled (cs' ! k)) (members a)
      = filter (\<lambda>k. \<not> fulfilled (cs ! k)) (members a)"
    using fu by (simp cong: filter_cong)
  have b: "\<forall>k \<in> set (members a). k < length cs'"
    using assms(1,2) unfolding all_ok_def by auto
  have g: "\<forall>k \<in> set (members a). \<forall>e. stage (cs' ! k) = Returned (Inl e) \<longrightarrow>
         (\<exists>e'. result a = Some (Inl e'))"
    using assms(1) fa unfolding all_ok_def by simp
  have h: "\<forall>e. result a = Some (Inl e) \<longrightarrow>
         (\<exists>k \<in> set (members a). stage (cs' ! k) = Returned (Inl e))"
    using assms(1) fa unfolding all_ok_def by simp
  have rest: "distinct (members a)"
    "elements a = map (\<lambda>k. slot (cs ! k)) (members a)"
    "remaining a = length (filter (\<lambda>k. \<not> fulfilled (cs ! k)) (members a))"
    "\<forall>xs. result a = Some (Inr xs) \<longrightarrow> map Some xs = elements a"
    "result a = None \<longrightarrow> 0 < remaining a"
    using assms(1) unfolding all_ok_def by blast+
  show ?thesis
    unfolding all_ok_def e f
    using b g h rest by blast
qed

lemma all_ok_cong:
  assumes "all_ok cs a" and "length cs \<le> length cs'"
    and "\<forall>m \<in> set (members a). stage (cs' ! m) = stage (cs ! m)"
  shows "all_ok cs' a"
  using assms(3)
  by (intro all_ok_similar [OF assms(1,2)]) (simp_all add: slot_def fulfilled_def)

lemma all_ok_append: "all_ok cs a \<Longrightarrow> all_ok (cs @ new) a"
proof (rule all_ok_cong)
  assume a: "all_ok cs a"
  then have "\<forall>k \<in> set (members a). k < length cs" by (simp add: all_ok_def)
  then show "\<forall>m \<in> set (members a). stage ((cs @ new) ! m) = stage (cs ! m)"
    by (simp add: nth_append)
qed simp_all

lemma all_ok_update_other:
  assumes "all_ok cs a" and "k \<notin> set (members a)"
  shows "all_ok (cs[k := c']) a"
proof (rule all_ok_cong [OF assms(1)])
  show "\<forall>m \<in> set (members a). stage (cs[k := c'] ! m) = stage (cs ! m)"
    using assms(2) by (metis nth_list_update_neq)
qed simp

lemma fulfilled_slot: "fulfilled c \<Longrightarrow> slot c \<noteq> None"
proof (cases "stage c")
  case (Returned r)
  then show "fulfilled c \<Longrightarrow> slot c \<noteq> None"
    by (cases r) (simp_all add: fulfilled_def slot_def)
qed (simp_all add: fulfilled_def)

lemma unreturned_slot:
  "\<forall>r. stage c \<noteq> Returned r \<Longrightarrow> slot c = None \<and> \<not> fulfilled c"
  by (auto simp: slot_def fulfilled_def split: stage.splits sum.splits)

lemma all_ok_update_kind:
  assumes "all_ok cs a" and "\<forall>r. stage (cs ! k) \<noteq> Returned r"
    and "\<forall>r. stage c' \<noteq> Returned r"
  shows "all_ok (cs[k := c']) a"
proof (cases "k < length cs")
  case True
  have s: "slot c' = slot (cs ! k)" "fulfilled c' = fulfilled (cs ! k)"
    using unreturned_slot [OF assms(2)] unreturned_slot [OF assms(3)] by simp_all
  have at: "cs[k := c'] ! k = c'" using True by simp
  have other: "\<And>m. m \<noteq> k \<Longrightarrow> cs[k := c'] ! m = cs ! m" by simp
  show ?thesis
  proof (rule all_ok_similar [OF assms(1)])
    show "\<forall>m \<in> set (members a). slot (cs[k := c'] ! m) = slot (cs ! m)"
      using s at other by metis
    show "\<forall>m \<in> set (members a). fulfilled (cs[k := c'] ! m) = fulfilled (cs ! m)"
      using s at other by metis
    show "\<forall>m \<in> set (members a). \<forall>e.
        (stage (cs[k := c'] ! m) = Returned (Inl e)) = (stage (cs ! m) = Returned (Inl e))"
      using assms(2,3) at other by metis
  qed simp
next
  case False
  then show ?thesis using assms(1) by (simp add: list_update_beyond)
qed

lemma all_ok_settle_in:
  assumes ok: "all_ok cs a" and k: "k < length cs"
    and nr: "\<forall>r'. stage (cs ! k) \<noteq> Returned r'"
  shows "all_ok (cs[k := (cs ! k)\<lparr>stage := Returned r\<rparr>]) (settle_in k r a)"
proof (cases "k \<in> set (members a)")
  case False
  then have "index_of k (members a) = None" by (simp add: index_of_None)
  then have "settle_in k r a = a" by (simp add: settle_in_def)
  then show ?thesis using all_ok_update_other [OF ok False] by simp
next
  case True
  let ?c' = "(cs ! k)\<lparr>stage := Returned r\<rparr>"
  let ?cs' = "cs[k := ?c']"
  have dm: "distinct (members a)" using ok by (simp add: all_ok_def)
  from True obtain pre post where ms: "members a = pre @ k # post"
    by (meson split_list)
  with dm have kp: "k \<notin> set pre" "k \<notin> set post" by auto
  have ix: "index_of k (members a) = Some (length pre)"
    unfolding ms using index_of_split [OF kp(1)] .
  have same: "\<And>m. m \<noteq> k \<Longrightarrow> ?cs' ! m = cs ! m" by simp
  have at: "?cs' ! k = ?c'" using k by simp
  have bound: "\<forall>m \<in> set (members a). m < length ?cs'"
    using ok by (simp add: all_ok_def)
  have old_slot: "slot (cs ! k) = None" and old_ful: "\<not> fulfilled (cs ! k)"
    using unreturned_slot [OF nr] by simp_all
  have el: "elements a = map (\<lambda>m. slot (cs ! m)) pre @ None # map (\<lambda>m. slot (cs ! m)) post"
    using ok old_slot by (simp add: all_ok_def ms)
  have rem: "remaining a = length (filter (\<lambda>m. \<not> fulfilled (cs ! m)) pre)
      + 1 + length (filter (\<lambda>m. \<not> fulfilled (cs ! m)) post)"
    using ok old_ful by (simp add: all_ok_def ms)
  have pre_same: "\<forall>m \<in> set pre. ?cs' ! m = cs ! m"
    using kp(1) by (metis nth_list_update_neq)
  have post_same: "\<forall>m \<in> set post. ?cs' ! m = cs ! m"
    using kp(2) by (metis nth_list_update_neq)
  have pre_eq: "map (\<lambda>m. slot (?cs' ! m)) pre = map (\<lambda>m. slot (cs ! m)) pre"
    "filter (\<lambda>m. \<not> fulfilled (?cs' ! m)) pre = filter (\<lambda>m. \<not> fulfilled (cs ! m)) pre"
    using pre_same by (simp_all cong: filter_cong)
  have post_eq: "map (\<lambda>m. slot (?cs' ! m)) post = map (\<lambda>m. slot (cs ! m)) post"
    "filter (\<lambda>m. \<not> fulfilled (?cs' ! m)) post = filter (\<lambda>m. \<not> fulfilled (cs ! m)) post"
    using post_same by (simp_all cong: filter_cong)
  have not_all: "\<And>xs. result a \<noteq> Some (Inr xs)"
  proof
    fix xs assume "result a = Some (Inr xs)"
    then have "map Some xs = elements a" using ok by (simp add: all_ok_def)
    then have "None \<in> set (map Some xs)" unfolding el by simp
    then show False by auto
  qed
  have failed_old: "\<And>m e. m \<in> set (members a) \<Longrightarrow> stage (cs ! m) = Returned (Inl e) \<Longrightarrow>
      \<exists>e'. result a = Some (Inl e')"
    using ok unfolding all_ok_def by blast
  have result_old: "\<And>e. result a = Some (Inl e) \<Longrightarrow>
      \<exists>m \<in> set (members a). m \<noteq> k \<and> stage (cs ! m) = Returned (Inl e)"
  proof -
    fix e assume "result a = Some (Inl e)"
    then obtain m where "m \<in> set (members a)" "stage (cs ! m) = Returned (Inl e)"
      using ok unfolding all_ok_def by blast
    moreover from this nr have "m \<noteq> k" by auto
    ultimately show "\<exists>m \<in> set (members a). m \<noteq> k \<and> stage (cs ! m) = Returned (Inl e)"
      by blast
  qed
  show ?thesis
  proof (cases r)
    case (Inl e)
    have sa: "settle_in k r a = a\<lparr>result := settle (Inl e) (result a)\<rparr>"
      by (simp add: settle_in_def ix Inl reject_def)
    have new_slot: "slot ?c' = None" "\<not> fulfilled ?c'"
      using Inl by (simp_all add: slot_def fulfilled_def)
    have r1: "\<exists>e'. settle (Inl e) (result a) = Some (Inl e')"
    proof (cases "result a")
      case None
      then show ?thesis by (simp add: settle_def)
    next
      case (Some x)
      then show ?thesis using not_all by (cases x) (simp_all add: settle_def)
    qed
    have r2: "\<And>e'. settle (Inl e) (result a) = Some (Inl e') \<Longrightarrow>
        \<exists>m \<in> set (members a). stage (?cs' ! m) = Returned (Inl e')"
    proof -
      fix e' assume s: "settle (Inl e) (result a) = Some (Inl e')"
      show "\<exists>m \<in> set (members a). stage (?cs' ! m) = Returned (Inl e')"
      proof (cases "result a")
        case None
        with s have "e' = e" by (simp add: settle_def)
        then have "stage (?cs' ! k) = Returned (Inl e')" using at Inl by simp
        with True show ?thesis by blast
      next
        case (Some x)
        with s have "result a = Some (Inl e')" by (simp add: settle_def)
        from result_old [OF this] obtain m where
          m: "m \<in> set (members a)" "m \<noteq> k" "stage (cs ! m) = Returned (Inl e')" by blast
        then have "stage (?cs' ! m) = Returned (Inl e')" using same [of m] by simp
        with m(1) show ?thesis by blast
      qed
    qed
    have r3: "\<And>xs. settle (Inl e) (result a) \<noteq> Some (Inr xs)"
      using not_all by (cases "result a") (auto simp: settle_def)
    have r4: "settle (Inl e) (result a) \<noteq> None"
      by (cases "result a") (auto simp: settle_def)
    have el': "elements a = map (\<lambda>m. slot (?cs' ! m)) (members a)"
      unfolding el ms using pre_eq post_eq at new_slot by simp
    have rem': "remaining a = length (filter (\<lambda>m. \<not> fulfilled (?cs' ! m)) (members a))"
      unfolding rem ms using pre_eq post_eq at new_slot by simp
    show ?thesis
      unfolding sa
    proof (rule all_okI)
      show "distinct (members (a\<lparr>result := settle (Inl e) (result a)\<rparr>))"
        using dm by simp
      show "\<forall>m \<in> set (members (a\<lparr>result := settle (Inl e) (result a)\<rparr>)). m < length ?cs'"
        using bound by simp
      show "elements (a\<lparr>result := settle (Inl e) (result a)\<rparr>) =
          map (\<lambda>m. slot (?cs' ! m)) (members (a\<lparr>result := settle (Inl e) (result a)\<rparr>))"
        using el' by simp
      show "remaining (a\<lparr>result := settle (Inl e) (result a)\<rparr>) =
          length (filter (\<lambda>m. \<not> fulfilled (?cs' ! m))
            (members (a\<lparr>result := settle (Inl e) (result a)\<rparr>)))"
        using rem' by simp
      show "\<forall>m \<in> set (members (a\<lparr>result := settle (Inl e) (result a)\<rparr>)).
          \<forall>e'. stage (?cs' ! m) = Returned (Inl e') \<longrightarrow>
          (\<exists>e''. result (a\<lparr>result := settle (Inl e) (result a)\<rparr>) = Some (Inl e''))"
        using r1 by simp
      show "\<forall>e'. result (a\<lparr>result := settle (Inl e) (result a)\<rparr>) = Some (Inl e') \<longrightarrow>
          (\<exists>m \<in> set (members (a\<lparr>result := settle (Inl e) (result a)\<rparr>)).
             stage (?cs' ! m) = Returned (Inl e'))"
        using r2 by simp
      show "\<forall>xs. result (a\<lparr>result := settle (Inl e) (result a)\<rparr>) = Some (Inr xs) \<longrightarrow>
          map Some xs = elements (a\<lparr>result := settle (Inl e) (result a)\<rparr>)"
        using r3 by simp
      show "result (a\<lparr>result := settle (Inl e) (result a)\<rparr>) = None \<longrightarrow>
          0 < remaining (a\<lparr>result := settle (Inl e) (result a)\<rparr>)"
        using r4 by auto
    qed
  next
    case (Inr v)
    let ?vs = "(elements a)[length pre := Some v]"
    let ?n = "remaining a - 1"
    let ?res = "if ?n = 0
                then (case those ?vs of Some xs \<Rightarrow> settle (Inr xs) (result a)
                      | None \<Rightarrow> result a)
                else result a"
    define res where "res = ?res"
    have sa: "settle_in k r a = a\<lparr>elements := ?vs, remaining := ?n, result := res\<rparr>"
      by (simp add: settle_in_def ix Inr resolveElement_def Let_def res_def)
    have new_slot: "slot ?c' = Some v" "fulfilled ?c'"
      using Inr by (simp_all add: slot_def fulfilled_def)
    have vs: "?vs = map (\<lambda>m. slot (?cs' ! m)) (members a)"
      unfolding el ms using pre_eq post_eq at new_slot
      by (simp add: list_update_append)
    have n: "?n = length (filter (\<lambda>m. \<not> fulfilled (?cs' ! m)) (members a))"
      unfolding rem ms using pre_eq post_eq at new_slot by simp
    have keep: "\<And>e'. result a = Some (Inl e') \<Longrightarrow> res = Some (Inl e')"
      by (auto simp: res_def settle_def split: option.splits)
    have r1: "\<forall>m \<in> set (members a). \<forall>e'. stage (?cs' ! m) = Returned (Inl e') \<longrightarrow>
        (\<exists>e''. res = Some (Inl e''))"
    proof (intro ballI allI impI)
      fix m e' assume m: "m \<in> set (members a)" and f: "stage (?cs' ! m) = Returned (Inl e')"
      have "m \<noteq> k" using f at Inr by auto
      then have "stage (cs ! m) = Returned (Inl e')" using f same [of m] by simp
      from failed_old [OF m this] obtain e'' where "result a = Some (Inl e'')" by blast
      from keep [OF this] show "\<exists>e''. res = Some (Inl e'')" by blast
    qed
    have inl_old: "\<And>e'. res = Some (Inl e') \<Longrightarrow> result a = Some (Inl e')"
      by (cases "result a") (auto simp: res_def settle_def split: option.splits if_splits)
    have r2: "\<forall>e'. res = Some (Inl e') \<longrightarrow>
        (\<exists>m \<in> set (members a). stage (?cs' ! m) = Returned (Inl e'))"
    proof (intro allI impI)
      fix e' assume "res = Some (Inl e')"
      from result_old [OF inl_old [OF this]] obtain m where
        m: "m \<in> set (members a)" "m \<noteq> k" "stage (cs ! m) = Returned (Inl e')" by blast
      then have "stage (?cs' ! m) = Returned (Inl e')" using same [of m] by simp
      with m(1) show "\<exists>m \<in> set (members a). stage (?cs' ! m) = Returned (Inl e')"
        by blast
    qed
    have r3: "\<forall>xs. res = Some (Inr xs) \<longrightarrow> map Some xs = ?vs"
    proof (intro allI impI)
      fix xs assume a: "res = Some (Inr xs)"
      show "map Some xs = ?vs"
      proof (cases "result a")
        case None
        with a have "those ?vs = Some xs"
          by (auto simp: res_def settle_def split: option.splits if_splits)
        then show ?thesis by (rule those_SomeD)
      next
        case (Some x)
        with a have "result a = Some (Inr xs)"
          by (auto simp: res_def settle_def split: option.splits if_splits)
        with not_all show ?thesis by blast
      qed
    qed
    have r4: "res = None \<longrightarrow> 0 < ?n"
    proof (intro impI)
      assume a: "res = None"
      show "0 < ?n"
      proof (rule ccontr)
        assume "\<not> 0 < ?n"
        then have z: "?n = 0" by simp
        then have "filter (\<lambda>m. \<not> fulfilled (?cs' ! m)) (members a) = []" using n by simp
        then have "\<forall>m \<in> set (members a). fulfilled (?cs' ! m)"
          by (simp add: filter_empty_conv)
        then have "\<forall>m \<in> set (members a). slot (?cs' ! m) \<noteq> None"
          using fulfilled_slot by blast
        then have "\<forall>x \<in> set ?vs. x \<noteq> None" unfolding vs by auto
        from those_total [OF this] obtain xs where "those ?vs = Some xs" by blast
        with a z show False by (cases "result a") (auto simp: res_def settle_def)
      qed
    qed
    define a' where "a' = a\<lparr>elements := ?vs, remaining := ?n, result := res\<rparr>"
    have sel: "members a' = members a" "elements a' = ?vs" "remaining a' = ?n"
      "result a' = res"
      by (simp_all add: a'_def)
    show ?thesis
      unfolding sa a'_def [symmetric]
    proof (rule all_okI)
      show "distinct (members a')" unfolding sel using dm .
      show "\<forall>m \<in> set (members a'). m < length ?cs'" unfolding sel using bound .
      show "elements a' = map (\<lambda>m. slot (?cs' ! m)) (members a')" unfolding sel using vs .
      show "remaining a' = length (filter (\<lambda>m. \<not> fulfilled (?cs' ! m)) (members a'))"
        unfolding sel using n .
      show "\<forall>m \<in> set (members a'). \<forall>e'. stage (?cs' ! m) = Returned (Inl e') \<longrightarrow>
          (\<exists>e''. result a' = Some (Inl e''))"
        unfolding sel using r1 .
      show "\<forall>e'. result a' = Some (Inl e') \<longrightarrow>
          (\<exists>m \<in> set (members a'). stage (?cs' ! m) = Returned (Inl e'))"
        unfolding sel using r2 .
      show "\<forall>xs. result a' = Some (Inr xs) \<longrightarrow> map Some xs = elements a'"
        unfolding sel using r3 .
      show "result a' = None \<longrightarrow> 0 < remaining a'"
        unfolding sel using r4 .
    qed
  qed
qed

section \<open>Invariants of the callers\<close>

lemma token_of_bound:
  assumes "sem_ok s" and "call_ok s c" and "token_of s (permit c) = Some t"
  shows "t < length (released s)"
proof (cases "permit c")
  case (Now u)
  then show ?thesis using assms(2,3) by (simp add: call_ok_def)
next
  case (Later q)
  then have "(q, t) \<in> set (resolved s)" using assms(3) by (simp add: map_of_SomeD)
  then have "t \<in> set (map snd (resolved s))" by force
  moreover have "\<forall>t \<in> set (map snd (resolved s)). t < length (released s)"
    using assms(1) unfolding sem_ok_def by blast
  ultimately show ?thesis by blast
qed

lemma distinct_snd_same:
  "distinct (map snd xs) \<Longrightarrow> (a, t) \<in> set xs \<Longrightarrow> (b, t) \<in> set xs \<Longrightarrow> a = b"
  by (induction xs) force+

lemma token_of_inj:
  assumes ok: "sem_ok s" and c: "call_ok s c" and c': "call_ok s c'"
    and t: "token_of s (permit c) = Some t" and t': "token_of s (permit c') = Some t"
  shows "permit c = permit c'"
proof -
  have d: "distinct (map snd (resolved s))" using ok by (simp add: sem_ok_def)
  show ?thesis
  proof (cases "permit c")
    case (Now u)
    note cn = this
    show ?thesis
    proof (cases "permit c'")
      case (Now u')
      then show ?thesis using cn t t' by simp
    next
      case (Later q')
      then have "(q', t) \<in> set (resolved s)" using t' by (simp add: map_of_SomeD)
      then have "t \<in> snd ` set (resolved s)" by force
      moreover have "t \<notin> snd ` set (resolved s)"
        using c cn t by (simp add: call_ok_def)
      ultimately show ?thesis by simp
    qed
  next
    case (Later q)
    note cl = this
    then have m: "(q, t) \<in> set (resolved s)" using t by (simp add: map_of_SomeD)
    show ?thesis
    proof (cases "permit c'")
      case (Now u')
      have "t \<in> snd ` set (resolved s)" using m by force
      moreover have "t \<notin> snd ` set (resolved s)"
        using c' Now t' by (simp add: call_ok_def)
      ultimately show ?thesis by simp
    next
      case (Later q')
      then have "(q', t) \<in> set (resolved s)" using t' by (simp add: map_of_SomeD)
      from distinct_snd_same [OF d m this] show ?thesis using cl Later by simp
    qed
  qed
qed

lemma nth_update_True: "t < length xs \<Longrightarrow> xs ! t \<Longrightarrow> xs[t0 := True] ! t"
  by (cases "t0 < length xs") (simp_all add: nth_list_update)

lemma nth_update_other: "t \<noteq> t0 \<Longrightarrow> xs[t0 := b] ! t = xs ! t"
  by simp

text \<open>How the four state changes of the semaphore look to an activation.\<close>

lemma call_ok_token_added:
  assumes "sem_ok s" and "call_ok s c"
  shows "call_ok (s\<lparr>count := n, released := released s @ [False]\<rparr>) c"
proof -
  have b: "\<And>t. token_of s (permit c) = Some t \<Longrightarrow> t < length (released s)"
    using token_of_bound [OF assms] .
  have tk: "token_of (s\<lparr>count := n, released := released s @ [False]\<rparr>) (permit c)
      = token_of s (permit c)"
    by (cases "permit c") simp_all
  show ?thesis
    using assms(2) b unfolding call_ok_def tk
    by (auto simp: nth_append split: acquired.splits stage.splits)
qed

lemma call_ok_enqueued:
  assumes "call_ok s c"
  shows "call_ok (s\<lparr>futures := Suc (futures s), queue := q\<rparr>) c"
proof -
  have tk: "token_of (s\<lparr>futures := Suc (futures s), queue := q\<rparr>) (permit c)
      = token_of s (permit c)"
    by (cases "permit c") simp_all
  show ?thesis
    using assms unfolding call_ok_def tk
    by (auto split: acquired.splits stage.splits)
qed

lemma call_ok_released:
  assumes "sem_ok s" and "call_ok s c" and "token_of s (permit c) \<noteq> Some t0"
  shows "call_ok (s\<lparr>released := (released s)[t0 := True], count := n\<rparr>) c"
proof -
  have tk: "token_of (s\<lparr>released := (released s)[t0 := True], count := n\<rparr>) (permit c)
      = token_of s (permit c)"
    by (cases "permit c") simp_all
  show ?thesis
    using assms(2,3) unfolding call_ok_def tk
    by (auto simp: nth_list_update split: acquired.splits stage.splits)
qed

lemma call_ok_handed_off:
  assumes ok: "sem_ok s" and c: "call_ok s c" and ne: "token_of s (permit c) \<noteq> Some t0"
    and w0: "w0 \<notin> fst ` set (resolved s)"
  shows "call_ok (s\<lparr>released := (released s)[t0 := True] @ [False], count := n, queue := ws,
        resolved := resolved s @ [(w0, length (released s))]\<rparr>) c"
    (is "call_ok ?s' c")
proof -
  have b: "\<And>t. token_of s (permit c) = Some t \<Longrightarrow> t < length (released s)"
    using token_of_bound [OF ok c] .
  have none: "map_of (resolved s) w0 = None"
    using w0 by (simp add: map_of_eq_None_iff)
  have tk: "token_of ?s' (permit c) =
      (case token_of s (permit c) of
         Some t \<Rightarrow> Some t
       | None \<Rightarrow> if permit c = Later w0 then Some (length (released s)) else None)"
    using none by (cases "permit c") (auto simp: map_add_def split: option.splits)
  have p: "(case permit c of
        Now t \<Rightarrow> t < length (released ?s') \<and> t \<notin> snd ` set (resolved ?s')
      | Later q \<Rightarrow> q < futures ?s')"
    using c by (auto simp: call_ok_def split: acquired.splits)
  have st: "(case stage c of
        Awaiting \<Rightarrow> (\<forall>t. token_of ?s' (permit c) = Some t \<longrightarrow> \<not> released ?s' ! t)
      | Running t n \<Rightarrow> token_of ?s' (permit c) = Some t \<and> \<not> released ?s' ! t
      | Returned r \<Rightarrow>
          (\<exists>t. token_of ?s' (permit c) = Some t \<and> released ?s' ! t) \<and> r = outcome (task c))"
  proof (cases "stage c")
    case Awaiting
    then have old: "\<And>t. token_of s (permit c) = Some t \<Longrightarrow> \<not> released s ! t"
      using c by (simp add: call_ok_def)
    show ?thesis
      unfolding Awaiting tk using old b ne
      by (auto simp: nth_append nth_list_update split: option.splits if_splits)
  next
    case (Running t m)
    then have old: "token_of s (permit c) = Some t" "\<not> released s ! t"
      using c by (simp_all add: call_ok_def)
    show ?thesis
      unfolding Running tk using old b [OF old(1)] ne
      by (simp add: nth_append nth_list_update)
  next
    case (Returned r)
    then obtain t where old: "token_of s (permit c) = Some t" "released s ! t"
      and r: "r = outcome (task c)"
      using c by (auto simp: call_ok_def)
    show ?thesis
      unfolding Returned tk using old b [OF old(1)] r
      by (simp add: nth_append nth_update_True)
  qed
  from p st show ?thesis unfolding call_ok_def by simp
qed

lemma acquire_cases:
  "acquire s =
     (if count s < capacity s
      then (Now (length (released s)),
            s\<lparr>count := count s + 1, released := released s @ [False]\<rparr>)
      else (Later (futures s),
            s\<lparr>futures := Suc (futures s), queue := queue s @ [futures s]\<rparr>))"
  by (simp add: acquire_def release_def future_def)

lemma tryAcquire_cases:
  "tryAcquire s =
     (if count s < capacity s
      then (Some (length (released s)),
            s\<lparr>count := count s + 1, released := released s @ [False]\<rparr>)
      else (None, s))"
  by (simp add: tryAcquire_def release_def)

lemma call_ok_acquire:
  "sem_ok s \<Longrightarrow> call_ok s c \<Longrightarrow> call_ok (snd (acquire s)) c"
  by (simp add: acquire_cases call_ok_token_added call_ok_enqueued)

lemma call_ok_tryAcquire:
  "sem_ok s \<Longrightarrow> call_ok s c \<Longrightarrow> call_ok (snd (tryAcquire s)) c"
  by (simp add: tryAcquire_cases call_ok_token_added)

lemma call_ok_release_call:
  assumes ok: "sem_ok s" and c: "call_ok s c" and ne: "token_of s (permit c) \<noteq> Some t0"
  shows "call_ok (snd (release_call t0 s)) c"
proof (cases "released s ! t0 \<or> count s \<le> 0")
  case True
  then show ?thesis using c by (simp add: release_call_released)
next
  case False
  then have nr: "\<not> released s ! t0" and pos: "0 < count s" by auto
  show ?thesis
  proof (cases "queue s")
    case Nil
    show ?thesis
      unfolding release_call_empty_queue [OF nr pos Nil] snd_conv
      using call_ok_released [OF ok c ne] .
  next
    case (Cons w ws)
    show ?thesis
      unfolding release_call_handoff [OF ok nr pos Cons] snd_conv
      using call_ok_handed_off [OF ok c ne queued_not_granted [OF ok Cons]] .
  qed
qed

lemma private_tokens_iff:
  "t \<in> set (private_tokens w) \<longleftrightarrow> (\<exists>c \<in> set (calls w). token_of (sem w) (permit c) = Some t)"
  by (force simp: private_tokens_def List.map_filter_def)

lemma world_ok_client:
  assumes ok: "world_ok w" and st: "step (Client a) w = Some w'"
  shows "world_ok w'"
proof -
  from st obtain s' where al: "allowed w a" and ex: "exec a (sem w) = Some s'"
    and w': "w' = w\<lparr>sem := s'\<rparr>"
    by (auto split: if_splits)
  have sok: "sem_ok (sem w)" and cs: "\<forall>c \<in> set (calls w). call_ok (sem w) c"
    using ok by (simp_all add: world_ok_def)
  have "\<forall>c \<in> set (calls w). call_ok s' c"
  proof (cases a)
    case TryAcquire
    then show ?thesis using ex sok cs by (auto simp: call_ok_tryAcquire)
  next
    case Acquire
    then show ?thesis using ex sok cs by (auto simp: call_ok_acquire)
  next
    case (Release t)
    then have "\<forall>c \<in> set (calls w). token_of (sem w) (permit c) \<noteq> Some t"
      using al by (simp add: private_tokens_iff)
    then show ?thesis
      using ex sok cs Release by (auto simp: call_ok_release_call split: if_splits)
  qed
  moreover have "sem_ok s'" using sem_ok_exec [OF sok ex] .
  ultimately show ?thesis using ok by (simp add: world_ok_def w')
qed

lemma world_ok_use:
  assumes ok: "world_ok w"
  shows "world_ok (snd (use fn w))"
proof -
  let ?s = "sem w"
  have sok: "sem_ok ?s" and cs: "\<forall>c \<in> set (calls w). call_ok ?s c"
    and d: "distinct (map permit (calls w))"
    and as: "\<forall>a \<in> set (alls w). all_ok (calls w) a"
    using ok by (simp_all add: world_ok_def)
  let ?p = "fst (acquire ?s)" and ?s' = "snd (acquire ?s)"
  let ?c = "\<lparr>task = fn, permit = ?p, stage = Awaiting\<rparr>"
  have u: "snd (use fn w) = w\<lparr>sem := ?s', calls := calls w @ [?c]\<rparr>"
    by (simp add: use_def split_beta)
  have tb: "\<forall>t \<in> set (map snd (resolved ?s)). t < length (released ?s)"
    using sok unfolding sem_ok_def by blast
  have fifo: "granted ?s @ queue ?s = [0..<futures ?s]"
    using sok by (simp add: sem_ok_def)
  have fresh: "?p \<notin> permit ` set (calls w)"
  proof
    assume "?p \<in> permit ` set (calls w)"
    then obtain c where c: "c \<in> set (calls w)" "permit c = ?p" by auto
    with cs have "call_ok ?s c" by blast
    then show False using c(2) by (auto simp: call_ok_def acquire_cases split: if_splits)
  qed
  have new: "call_ok ?s' ?c"
  proof (cases "count ?s < capacity ?s")
    case True
    have "length (released ?s) \<notin> snd ` set (resolved ?s)" using tb by auto
    then show ?thesis using True by (simp add: call_ok_def acquire_cases)
  next
    case False
    have "futures ?s \<notin> set (granted ?s @ queue ?s)" unfolding fifo by simp
    then have "futures ?s \<notin> fst ` set (resolved ?s)" by (simp add: granted_def)
    then have "map_of (resolved ?s) (futures ?s) = None"
      by (simp add: map_of_eq_None_iff)
    then show ?thesis using False by (simp add: call_ok_def acquire_cases)
  qed
  have "sem_ok ?s'" using sem_ok_acquire [OF sok] .
  moreover have "distinct (map permit (calls w @ [?c]))" using d fresh by simp
  moreover have "\<forall>c \<in> set (calls w @ [?c]). call_ok ?s' c"
    using cs new call_ok_acquire [OF sok] by auto
  moreover have "\<forall>a \<in> set (alls w). all_ok (calls w @ [?c]) a"
    using as all_ok_append by blast
  ultimately show ?thesis unfolding u by (simp add: world_ok_def)
qed

subsection \<open>Turns of an activation\<close>

lemma unreturned_unreleased:
  assumes "call_ok s c" and "token_of s (permit c) = Some t" and "\<forall>r. stage c \<noteq> Returned r"
  shows "\<not> released s ! t"
proof (cases "stage c")
  case Awaiting
  then show ?thesis using assms(1,2) by (simp add: call_ok_def)
next
  case (Running t' n)
  then show ?thesis using assms(1,2) by (simp add: call_ok_def)
next
  case (Returned r)
  then show ?thesis using assms(3) by simp
qed

lemma call_ok_finish:
  assumes ok: "sem_ok s" and c: "call_ok s c" and tk: "token_of s (permit c) = Some t"
    and nr: "\<forall>r. stage c \<noteq> Returned r"
  shows "call_ok (snd (release_call t s)) (c\<lparr>stage := Returned (outcome (task c))\<rparr>)"
proof -
  have b: "t < length (released s)" using token_of_bound [OF ok c tk] .
  have u: "\<not> released s ! t" using unreturned_unreleased [OF c tk nr] .
  have "0 < outstanding s" using outstanding_pos [OF b u] .
  then have pos: "0 < count s" using ok by (simp add: sem_ok_def)
  have p: "case permit c of
        Now t \<Rightarrow> t < length (released s) \<and> t \<notin> snd ` set (resolved s)
      | Later q \<Rightarrow> q < futures s"
    using c by (simp add: call_ok_def)
  show ?thesis
  proof (cases "queue s")
    case Nil
    let ?s' = "s\<lparr>released := (released s)[t := True], count := count s - 1\<rparr>"
    have "token_of ?s' (permit c) = Some t" using tk by (cases "permit c") simp_all
    then show ?thesis
      unfolding release_call_empty_queue [OF u pos Nil] snd_conv
      using p b by (auto simp: call_ok_def split: acquired.splits)
  next
    case (Cons w ws)
    let ?s' = "s\<lparr>released := (released s)[t := True] @ [False], count := count s,
        queue := ws, resolved := resolved s @ [(w, length (released s))]\<rparr>"
    have "token_of ?s' (permit c) = Some t"
      using tk by (cases "permit c") (simp_all add: map_add_def)
    then show ?thesis
      unfolding release_call_handoff [OF ok u pos Cons] snd_conv
      using p b by (auto simp: call_ok_def nth_append split: acquired.splits)
  qed
qed

lemma other_call_token:
  assumes ok: "sem_ok s" and cs: "\<forall>c \<in> set cs. call_ok s c"
    and d: "distinct (map permit cs)" and k: "k < length cs" and j: "j < length cs"
    and ne: "j \<noteq> k" and tk: "token_of s (permit (cs ! k)) = Some t"
  shows "token_of s (permit (cs ! j)) \<noteq> Some t"
proof
  assume "token_of s (permit (cs ! j)) = Some t"
  from token_of_inj [OF ok _ _ this tk] cs j k
  have "permit (cs ! j) = permit (cs ! k)" by simp
  then have "map permit cs ! j = map permit cs ! k" using j k by simp
  moreover have "(map permit cs ! j = map permit cs ! k) = (j = k)"
    using j k by (intro nth_eq_iff_index_eq [OF d]) simp_all
  ultimately show False using ne by blast
qed

lemma finish_eq:
  "finish k t r w =
     w\<lparr>sem := snd (release_call t (sem w)),
       calls := (calls w)[k := (calls w ! k)\<lparr>stage := Returned r\<rparr>],
       alls := map (settle_in k r) (alls w)\<rparr>"
  by (simp add: finish_def notify_def split_beta)

lemma world_ok_finish:
  assumes ok: "world_ok w" and k: "k < length (calls w)"
    and tk: "token_of (sem w) (permit (calls w ! k)) = Some t"
    and nr: "\<forall>r. stage (calls w ! k) \<noteq> Returned r"
  shows "world_ok (finish k t (outcome (task (calls w ! k))) w)"
proof -
  let ?s = "sem w" and ?cs = "calls w" and ?c = "calls w ! k"
  let ?r = "outcome (task ?c)"
  let ?s' = "snd (release_call t ?s)"
  let ?cs' = "?cs[k := ?c\<lparr>stage := Returned ?r\<rparr>]"
  have sok: "sem_ok ?s" and cs: "\<forall>c \<in> set ?cs. call_ok ?s c"
    and d: "distinct (map permit ?cs)"
    and as: "\<forall>a \<in> set (alls w). all_ok ?cs a"
    using ok by (simp_all add: world_ok_def)
  have ck: "call_ok ?s ?c" using cs k by simp
  have b: "t < length (released ?s)" using token_of_bound [OF sok ck tk] .
  have 1: "sem_ok ?s'" using sem_ok_release_call [OF sok b] .
  have "map permit ?cs' = map permit ?cs"
    using k by (simp add: map_update list_update_same_conv)
  then have 2: "distinct (map permit ?cs')" using d by simp
  have 3: "\<forall>c \<in> set ?cs'. call_ok ?s' c"
  proof
    fix c assume "c \<in> set ?cs'"
    then obtain j where j: "j < length ?cs" and cj: "c = ?cs' ! j"
      by (auto simp: in_set_conv_nth)
    show "call_ok ?s' c"
    proof (cases "j = k")
      case True
      then have "c = ?c\<lparr>stage := Returned ?r\<rparr>" using cj k by simp
      then show ?thesis using call_ok_finish [OF sok ck tk nr] by simp
    next
      case False
      then have c: "c = ?cs ! j" using cj by simp
      have "token_of ?s (permit (?cs ! j)) \<noteq> Some t"
        using other_call_token [OF sok cs d k j False tk] .
      moreover have "call_ok ?s (?cs ! j)" using cs j by simp
      ultimately show ?thesis unfolding c using call_ok_release_call [OF sok] by blast
    qed
  qed
  have 4: "\<forall>a \<in> set (map (settle_in k ?r) (alls w)). all_ok ?cs' a"
    using as all_ok_settle_in [OF _ k nr] by auto
  from 1 2 3 4 show ?thesis unfolding finish_eq by (simp add: world_ok_def)
qed

lemma world_ok_restage:
  assumes ok: "world_ok w" and k: "k < length (calls w)"
    and nr: "\<forall>r. stage (calls w ! k) \<noteq> Returned r"
    and tk: "token_of (sem w) (permit (calls w ! k)) = Some t"
  shows "world_ok (w\<lparr>calls := (calls w)[k := (calls w ! k)\<lparr>stage := Running t n\<rparr>]\<rparr>)"
proof -
  let ?s = "sem w" and ?cs = "calls w" and ?c = "calls w ! k"
  let ?cs' = "?cs[k := ?c\<lparr>stage := Running t n\<rparr>]"
  have sok: "sem_ok ?s" and cs: "\<forall>c \<in> set ?cs. call_ok ?s c"
    and d: "distinct (map permit ?cs)"
    and as: "\<forall>a \<in> set (alls w). all_ok ?cs a"
    using ok by (simp_all add: world_ok_def)
  have ck: "call_ok ?s ?c" using cs k by simp
  have u: "\<not> released ?s ! t" using unreturned_unreleased [OF ck tk nr] .
  have new: "call_ok ?s (?c\<lparr>stage := Running t n\<rparr>)"
    using ck tk u by (simp add: call_ok_def)
  have "map permit ?cs' = map permit ?cs"
    using k by (simp add: map_update list_update_same_conv)
  then have 2: "distinct (map permit ?cs')" using d by simp
  have 3: "\<forall>c \<in> set ?cs'. call_ok ?s c"
    using cs new set_update_subset_insert [of ?cs k] by blast
  have 4: "\<forall>a \<in> set (alls w). all_ok ?cs' a"
    using as all_ok_update_kind [OF _ nr] by simp
  from sok 2 3 4 show ?thesis by (simp add: world_ok_def)
qed

lemma world_ok_resume:
  assumes ok: "world_ok w" and st: "resume k w = Some w'"
  shows "world_ok w'"
proof -
  from st have k: "k < length (calls w)" by (simp add: resume_def split: if_splits)
  let ?c = "calls w ! k"
  have ck: "call_ok (sem w) ?c" using ok k by (simp add: world_ok_def)
  show ?thesis
  proof (cases "stage ?c")
    case Awaiting
    then have nr: "\<forall>r. stage ?c \<noteq> Returned r" by simp
    from st Awaiting k obtain t where tk: "token_of (sem w) (permit ?c) = Some t"
      by (auto simp: resume_def Let_def split: option.splits)
    show ?thesis
    proof (cases "task ?c")
      case (Throws e)
      then have "w' = finish k t (outcome (task ?c)) w"
        using st k Awaiting tk by (simp add: resume_def Let_def)
      then show ?thesis using world_ok_finish [OF ok k tk nr] by simp
    next
      case (Settles n r)
      then have "w' = w\<lparr>calls := (calls w)[k := ?c\<lparr>stage := Running t n\<rparr>]\<rparr>"
        using st k Awaiting tk by (simp add: resume_def Let_def)
      then show ?thesis using world_ok_restage [OF ok k nr tk] by simp
    qed
  next
    case (Running t n)
    then have nr: "\<forall>r. stage ?c \<noteq> Returned r" by simp
    have tk: "token_of (sem w) (permit ?c) = Some t"
      using ck Running by (simp add: call_ok_def)
    show ?thesis
    proof (cases n)
      case 0
      then have "w' = finish k t (outcome (task ?c)) w"
        using st k Running by (simp add: resume_def Let_def)
      then show ?thesis using world_ok_finish [OF ok k tk nr] by simp
    next
      case (Suc m)
      then have "w' = w\<lparr>calls := (calls w)[k := ?c\<lparr>stage := Running t m\<rparr>]\<rparr>"
        using st k Running by (simp add: resume_def Let_def)
      then show ?thesis using world_ok_restage [OF ok k nr tk] by simp
    qed
  next
    case (Returned r)
    then show ?thesis using st k by (simp add: resume_def Let_def)
  qed
qed

subsection \<open>submitAll and whole histories\<close>

lemma use_eq:
  "use fn w =
     (length (calls w),
      w\<lparr>sem := snd (acquire (sem w)),
        calls := calls w @ [\<lparr>task = fn, permit = fst (acquire (sem w)), stage = Awaiting\<rparr>]\<rparr>)"
  by (simp add: use_def split_beta)

lemma submit_each_shape:
  "submit_each fns w = (ks, w') \<Longrightarrow>
     ks = [length (calls w)..<length (calls w) + length fns] \<and>
     (\<exists>new. calls w' = calls w @ new \<and> map task new = fns \<and>
        (\<forall>c \<in> set new. stage c = Awaiting)) \<and>
     alls w' = alls w"
proof (induction fns arbitrary: w ks w')
  case Nil
  then show ?case by simp
next
  case (Cons fn fns)
  let ?w1 = "snd (use fn w)"
  obtain ks2 w2 where r: "submit_each fns ?w1 = (ks2, w2)" by fastforce
  have ks: "ks = length (calls w) # ks2" and w': "w' = w2"
    using Cons.prems r by (simp_all add: submit_def use_eq split_beta)
  from Cons.IH [OF r] obtain new where
    k2: "ks2 = [length (calls ?w1)..<length (calls ?w1) + length fns]"
    and c2: "calls w2 = calls ?w1 @ new" and t2: "map task new = fns"
    and s2: "\<forall>c \<in> set new. stage c = Awaiting" and a2: "alls w2 = alls ?w1"
    by blast
  let ?c = "\<lparr>task = fn, permit = fst (acquire (sem w)), stage = Awaiting\<rparr>"
  have c1: "calls ?w1 = calls w @ [?c]" and a1: "alls ?w1 = alls w"
    by (simp_all add: use_eq)
  have "[length (calls w)..<length (calls w) + length (fn # fns)] =
      length (calls w) # [Suc (length (calls w))..<length (calls w) + length (fn # fns)]"
    by (rule upt_conv_Cons) simp
  then have 1: "ks = [length (calls w)..<length (calls w) + length (fn # fns)]"
    unfolding ks k2 c1 by simp
  have "calls w' = calls w @ (?c # new) \<and> map task (?c # new) = fn # fns \<and>
      (\<forall>c \<in> set (?c # new). stage c = Awaiting)"
    using c2 c1 t2 s2 w' by simp
  then have 2: "\<exists>new. calls w' = calls w @ new \<and> map task new = fn # fns \<and>
      (\<forall>c \<in> set new. stage c = Awaiting)"
    by (rule exI [of _ "?c # new"])
  have 3: "alls w' = alls w" using a2 a1 w' by simp
  show ?case using 1 2 3 by (intro conjI)
qed

lemma world_ok_submit_each: "world_ok w \<Longrightarrow> world_ok (snd (submit_each fns w))"
proof (induction fns arbitrary: w)
  case Nil
  then show ?case by simp
next
  case (Cons fn fns)
  have "snd (submit_each (fn # fns) w) = snd (submit_each fns (snd (use fn w)))"
    by (simp add: submit_def split_beta)
  then show ?case using Cons.IH [OF world_ok_use [OF Cons.prems]] by simp
qed

lemma submitAll_eq:
  "submitAll fns w =
     (length (alls (snd (submit_each fns w))),
      (snd (submit_each fns w))
        \<lparr>alls := alls (snd (submit_each fns w)) @
           [\<lparr>members = fst (submit_each fns w),
             elements = replicate (length (fst (submit_each fns w))) None,
             remaining = length (fst (submit_each fns w)),
             result = (if fst (submit_each fns w) = [] then Some (Inr []) else None)\<rparr>]\<rparr>)"
  by (simp add: submitAll_def Promise_all_def split_beta)

lemma all_ok_fresh:
  assumes d: "distinct ks" and b: "\<forall>k \<in> set ks. k < length cs"
    and aw: "\<forall>k \<in> set ks. stage (cs ! k) = Awaiting"
  shows "all_ok cs \<lparr>members = ks, elements = replicate (length ks) None,
      remaining = length ks, result = (if ks = [] then Some (Inr []) else None)\<rparr>"
proof (rule all_okI)
  have sl: "\<forall>k \<in> set ks. slot (cs ! k) = None" and fu: "\<forall>k \<in> set ks. \<not> fulfilled (cs ! k)"
    using aw by (simp_all add: slot_def fulfilled_def)
  have "map (\<lambda>k. slot (cs ! k)) ks = map (\<lambda>k. None) ks" using sl by simp
  then show "elements \<lparr>members = ks, elements = replicate (length ks) None,
      remaining = length ks, result = (if ks = [] then Some (Inr []) else None)\<rparr> =
      map (\<lambda>k. slot (cs ! k)) (members \<lparr>members = ks, elements = replicate (length ks) None,
      remaining = length ks, result = (if ks = [] then Some (Inr []) else None)\<rparr>)"
    by (simp add: map_replicate_const)
  have "filter (\<lambda>k. \<not> fulfilled (cs ! k)) ks = ks" using fu by simp
  then show "remaining \<lparr>members = ks, elements = replicate (length ks) None,
      remaining = length ks, result = (if ks = [] then Some (Inr []) else None)\<rparr> =
      length (filter (\<lambda>k. \<not> fulfilled (cs ! k)) (members \<lparr>members = ks,
      elements = replicate (length ks) None,
      remaining = length ks, result = (if ks = [] then Some (Inr []) else None)\<rparr>))"
    by simp
qed (use d b aw in auto)

lemma world_ok_submitAll:
  assumes ok: "world_ok w"
  shows "world_ok (snd (submitAll fns w))"
proof -
  obtain ks w1 where r: "submit_each fns w = (ks, w1)" by fastforce
  have ok1: "world_ok w1" using world_ok_submit_each [OF ok, of fns] r by simp
  from submit_each_shape [OF r] obtain new where
    ks: "ks = [length (calls w)..<length (calls w) + length fns]"
    and c1: "calls w1 = calls w @ new" and t1: "map task new = fns"
    and s1: "\<forall>c \<in> set new. stage c = Awaiting"
    by blast
  have ln: "length new = length fns" using t1 by (metis length_map)
  have b: "\<forall>k \<in> set ks. k < length (calls w1)" unfolding ks c1 using ln by simp
  have aw: "\<forall>k \<in> set ks. stage (calls w1 ! k) = Awaiting"
  proof
    fix k assume "k \<in> set ks"
    then have k: "length (calls w) \<le> k" "k - length (calls w) < length new"
      unfolding ks using ln by auto
    then have "calls w1 ! k = new ! (k - length (calls w))"
      unfolding c1 by (simp add: nth_append)
    then show "stage (calls w1 ! k) = Awaiting" using s1 k(2) by simp
  qed
  have d: "distinct ks" unfolding ks by simp
  have "all_ok (calls w1) \<lparr>members = ks, elements = replicate (length ks) None,
      remaining = length ks, result = (if ks = [] then Some (Inr []) else None)\<rparr>"
    using all_ok_fresh [OF d b aw] .
  then show ?thesis
    unfolding submitAll_eq r using ok1 by (simp add: world_ok_def)
qed

lemma world_ok_step: "world_ok w \<Longrightarrow> step e w = Some w' \<Longrightarrow> world_ok w'"
proof (cases e)
  case (Client a)
  assume "world_ok w" "step e w = Some w'"
  then show ?thesis using world_ok_client Client by blast
next
  case (Use fn)
  assume "world_ok w" "step e w = Some w'"
  then show ?thesis using world_ok_use [of w fn] Use by auto
next
  case (SubmitAll fns)
  assume "world_ok w" "step e w = Some w'"
  then show ?thesis using world_ok_submitAll [of w fns] SubmitAll by auto
next
  case (Resume k)
  assume "world_ok w" "step e w = Some w'"
  then show ?thesis using world_ok_resume [of w k w'] Resume by auto
qed

lemma world_ok_play: "world_ok w \<Longrightarrow> play es w = Some w' \<Longrightarrow> world_ok w'"
proof (induction es arbitrary: w)
  case Nil
  then show ?case by simp
next
  case (Cons e es)
  from Cons.prems(2) obtain w1 where s: "step e w = Some w1" and p: "play es w1 = Some w'"
    by (auto split: option.splits)
  from Cons.IH [OF world_ok_step [OF Cons.prems(1) s] p] show ?case .
qed

lemma world_ok_boot: "Semaphore_new c = Inr s0 \<Longrightarrow> world_ok (boot s0)"
  by (simp add: world_ok_def boot_def sem_ok_new)

section \<open>Bounds on the counter and on the callers in flight\<close>

lemma capacity_acquire: "capacity (snd (acquire s)) = capacity s"
  by (simp add: acquire_cases)

lemma capacity_tryAcquire: "capacity (snd (tryAcquire s)) = capacity s"
  by (simp add: tryAcquire_cases)

lemma capacity_release_call: "capacity (snd (release_call t s)) = capacity s"
  by (simp add: release_call_def callback_def release_def resolve_def Let_def
      split: list.splits)

lemma capacity_submit_each: "capacity (sem (snd (submit_each fns w))) = capacity (sem w)"
proof (induction fns arbitrary: w)
  case Nil
  then show ?case by simp
next
  case (Cons fn fns)
  have "snd (submit_each (fn # fns) w) = snd (submit_each fns (snd (use fn w)))"
    by (simp add: submit_def split_beta)
  then show ?case using Cons.IH [of "snd (use fn w)"] by (simp add: use_eq capacity_acquire)
qed

lemma capacity_step: "step e w = Some w' \<Longrightarrow> capacity (sem w') = capacity (sem w)"
proof (cases e)
  case (Client a)
  assume "step e w = Some w'"
  then show ?thesis
    using Client
    by (cases a)
      (auto simp: capacity_acquire capacity_tryAcquire capacity_release_call
        split: if_splits)
next
  case (Use fn)
  assume "step e w = Some w'"
  then show ?thesis using Use by (auto simp: use_eq capacity_acquire)
next
  case (SubmitAll fns)
  assume "step e w = Some w'"
  then show ?thesis using SubmitAll by (auto simp: submitAll_eq capacity_submit_each)
next
  case (Resume k)
  assume "step e w = Some w'"
  then show ?thesis
    using Resume
    by (auto simp: resume_def Let_def finish_eq capacity_release_call
        split: if_splits stage.splits option.splits task.splits nat.splits)
qed

lemma capacity_play: "play es w = Some w' \<Longrightarrow> capacity (sem w') = capacity (sem w)"
proof (induction es arbitrary: w)
  case Nil
  then show ?case by simp
next
  case (Cons e es)
  from Cons.prems obtain w1 where s: "step e w = Some w1" and p: "play es w1 = Some w'"
    by (auto split: option.splits)
  from Cons.IH [OF p] capacity_step [OF s] show ?case by simp
qed

lemma bounds_tryAcquire:
  "0 \<le> count s \<and> count s \<le> capacity s \<Longrightarrow>
   0 \<le> count (snd (tryAcquire s)) \<and> count (snd (tryAcquire s)) \<le> capacity (snd (tryAcquire s))"
  by (simp add: tryAcquire_cases)

lemma bounds_acquire:
  "0 \<le> count s \<and> count s \<le> capacity s \<Longrightarrow>
   0 \<le> count (snd (acquire s)) \<and> count (snd (acquire s)) \<le> capacity (snd (acquire s))"
  by (simp add: acquire_cases)

lemma bounds_release_call:
  "0 \<le> count s \<and> count s \<le> capacity s \<Longrightarrow>
   0 \<le> count (snd (release_call t s)) \<and>
   count (snd (release_call t s)) \<le> capacity (snd (release_call t s))"
  by (simp add: release_call_def callback_def release_def resolve_def Let_def
      split: list.splits)

lemma in_flight_le_outstanding:
  assumes ok: "world_ok w"
  shows "in_flight w \<le> outstanding (sem w)"
proof -
  let ?s = "sem w" and ?cs = "calls w"
  let ?R = "{i. i < length ?cs \<and> holding w (?cs ! i)}"
  let ?U = "{t. t < length (released ?s) \<and> \<not> released ?s ! t}"
  let ?f = "\<lambda>i. the (token_of ?s (permit (?cs ! i)))"
  have sok: "sem_ok ?s" and cs: "\<forall>c \<in> set ?cs. call_ok ?s c"
    and d: "distinct (map permit ?cs)"
    using ok by (simp_all add: world_ok_def)
  have run: "\<exists>t. token_of ?s (permit (?cs ! i)) = Some t \<and> t \<in> ?U" if "i \<in> ?R" for i
  proof -
    from that have i: "i < length ?cs" and h: "holding w (?cs ! i)" by auto
    from h have nr: "\<forall>r. stage (?cs ! i) \<noteq> Returned r"
      by (auto simp: holding_def)
    from h obtain t where tk: "token_of ?s (permit (?cs ! i)) = Some t"
      by (auto simp: holding_def split: stage.splits)
    have c: "call_ok ?s (?cs ! i)" using cs i by simp
    have u: "\<not> released ?s ! t" using unreturned_unreleased [OF c tk nr] .
    from token_of_bound [OF sok c tk] u tk show ?thesis by simp
  qed
  have sub: "?f ` ?R \<subseteq> ?U"
  proof
    fix t assume "t \<in> ?f ` ?R"
    then obtain i where i: "i \<in> ?R" and t: "t = ?f i" by blast
    from run [OF i] t show "t \<in> ?U" by auto
  qed
  have inj: "inj_on ?f ?R"
  proof (rule inj_onI)
    fix i j assume i: "i \<in> ?R" and j: "j \<in> ?R" and e: "?f i = ?f j"
    from run [OF i] obtain t where ti: "token_of ?s (permit (?cs ! i)) = Some t" by blast
    from run [OF j] obtain u where tj: "token_of ?s (permit (?cs ! j)) = Some u" by blast
    from e ti tj have "u = t" by simp
    with tj have tj': "token_of ?s (permit (?cs ! j)) = Some t" by simp
    show "i = j"
    proof (rule ccontr)
      assume "i \<noteq> j"
      then have "j \<noteq> i" by simp
      from other_call_token [OF sok cs d _ _ this ti] i j tj' show False by simp
    qed
  qed
  have "card ?R = card (?f ` ?R)" using card_image [OF inj] by simp
  also have "\<dots> \<le> card ?U" using sub by (simp add: card_mono)
  finally have "card ?R \<le> card ?U" .
  moreover have "in_flight w = card ?R"
    by (simp add: in_flight_def length_filter_conv_card)
  moreover have "outstanding ?s = card ?U"
    by (simp add: outstanding_def length_filter_conv_card)
  ultimately show ?thesis by simp
qed

lemma running_holding:
  assumes "call_ok (sem w) c" and "running c"
  shows "holding w c"
proof -
  from assms(2) obtain t n where "stage c = Running t n"
    by (auto simp: running_def split: stage.splits)
  then show ?thesis using assms(1) by (simp add: call_ok_def holding_def)
qed

lemma running_le_in_flight:
  assumes ok: "world_ok w"
  shows "length (filter running (calls w)) \<le> in_flight w"
proof -
  have "\<forall>c \<in> set (calls w). running c \<longrightarrow> holding w c"
    using ok running_holding by (auto simp: world_ok_def)
  then have "filter running (calls w) = filter running (filter (holding w) (calls w))"
    by (auto intro: filter_cong)
  then have "length (filter running (calls w))
      = length (filter running (filter (holding w) (calls w)))" by simp
  also have "\<dots> \<le> length (filter (holding w) (calls w))" by (rule length_filter_le)
  finally show ?thesis by (simp add: in_flight_def)
qed

text \<open>
  C2. \<open>0 \<le> used \<le> capacity\<close> holds after construction, each of \<open>tryAcquire\<close>, \<open>acquire\<close>
  and a token's release (hand-off included) keeps it, and so it holds after every history
  of client calls, \<open>use\<close>, \<open>submitAll\<close> and turns of their activations.
\<close>

theorem used_between_zero_and_capacity:
  "(Semaphore_new c = Inr s0 \<longrightarrow> 0 \<le> used s0 \<and> used s0 \<le> capacity s0) \<and>
   (0 \<le> used s \<and> used s \<le> capacity s \<longrightarrow>
      0 \<le> used (snd (tryAcquire s)) \<and>
      used (snd (tryAcquire s)) \<le> capacity (snd (tryAcquire s)) \<and>
      0 \<le> used (snd (acquire s)) \<and>
      used (snd (acquire s)) \<le> capacity (snd (acquire s)) \<and>
      0 \<le> used (snd (release_call t s)) \<and>
      used (snd (release_call t s)) \<le> capacity (snd (release_call t s))) \<and>
   (Semaphore_new c = Inr s0 \<and> play es (boot s0) = Some w \<longrightarrow>
      0 \<le> used (sem w) \<and> used (sem w) \<le> capacity (sem w))"
proof (intro conjI impI)
  assume "Semaphore_new c = Inr s0"
  from sem_ok_new [OF this] show "0 \<le> used s0" and "used s0 \<le> capacity s0"
    by (simp_all add: sem_ok_def used_def)
next
  assume b: "0 \<le> used s \<and> used s \<le> capacity s"
  then have b': "0 \<le> count s \<and> count s \<le> capacity s" by (simp add: used_def)
  from bounds_tryAcquire [OF b'] show "0 \<le> used (snd (tryAcquire s))"
    and "used (snd (tryAcquire s)) \<le> capacity (snd (tryAcquire s))"
    by (simp_all add: used_def)
  from bounds_acquire [OF b'] show "0 \<le> used (snd (acquire s))"
    and "used (snd (acquire s)) \<le> capacity (snd (acquire s))"
    by (simp_all add: used_def)
  from bounds_release_call [OF b'] show "0 \<le> used (snd (release_call t s))"
    and "used (snd (release_call t s)) \<le> capacity (snd (release_call t s))"
    by (simp_all add: used_def)
next
  assume a: "Semaphore_new c = Inr s0 \<and> play es (boot s0) = Some w"
  then have "world_ok w" using world_ok_play [OF world_ok_boot] by blast
  then have "sem_ok (sem w)" by (simp add: world_ok_def)
  then show "0 \<le> used (sem w)" and "used (sem w) \<le> capacity (sem w)"
    by (simp_all add: sem_ok_def used_def)
qed

text \<open>
  C4. In every history the number of activations of \<open>use\<close> (or \<open>submit\<close>) in flight,
  past acquisition and not yet released, never exceeds the capacity, which never changes:
  it is at most \<open>used\<close>. The activations suspended inside their operation are among those
  in flight. For a Mutex the bound is 1, for a TaskPool its concurrency.
\<close>

theorem in_flight_within_capacity:
  assumes "Semaphore_new c = Inr s0" and "play es (boot s0) = Some w"
  shows "int (in_flight w) \<le> used (sem w) \<and> used (sem w) \<le> capacity s0 \<and>
    int (in_flight w) \<le> capacity s0 \<and>
    length (filter running (calls w)) \<le> in_flight w \<and>
    (Mutex_new = Inr s0 \<longrightarrow> in_flight w \<le> 1) \<and>
    (\<forall>p. TaskPool_new c = Inr p \<longrightarrow>
       int (in_flight w) \<le> concurrency p \<and> tasks \<lparr>semaphore = sem w\<rparr> \<le> concurrency p)"
proof -
  have ok: "world_ok w" using world_ok_play [OF world_ok_boot] assms by blast
  then have sok: "sem_ok (sem w)" by (simp add: world_ok_def)
  have cap: "capacity (sem w) = capacity s0"
    using capacity_play [OF assms(2)] by (simp add: boot_def)
  have 1: "int (in_flight w) \<le> used (sem w)"
    using in_flight_le_outstanding [OF ok] sok by (simp add: sem_ok_def used_def)
  have 2: "used (sem w) \<le> capacity s0"
    using sok cap by (simp add: sem_ok_def used_def)
  have 3: "Mutex_new = Inr s0 \<longrightarrow> in_flight w \<le> 1"
  proof
    assume "Mutex_new = Inr s0"
    then have "capacity s0 = 1"
      by (auto simp: Mutex_new_def Semaphore_new_def Semaphore_init_def)
    with 1 2 show "in_flight w \<le> 1" by simp
  qed
  have 4: "\<forall>p. TaskPool_new c = Inr p \<longrightarrow>
       int (in_flight w) \<le> concurrency p \<and> tasks \<lparr>semaphore = sem w\<rparr> \<le> concurrency p"
  proof (intro allI impI)
    fix p assume "TaskPool_new c = Inr p"
    then have "semaphore p = s0" using assms(1) by (auto simp: TaskPool_new_def)
    then have "concurrency p = capacity s0" by (simp add: concurrency_def)
    with 1 2 show "int (in_flight w) \<le> concurrency p \<and>
        tasks \<lparr>semaphore = sem w\<rparr> \<le> concurrency p"
      by (simp add: tasks_def)
  qed
  have 5: "length (filter running (calls w)) \<le> in_flight w"
    using running_le_in_flight [OF ok] .
  from 1 2 3 4 5 show ?thesis by simp
qed

lemmas sem_eval = Semaphore_new_def Semaphore_init_def tryAcquire_def acquire_def future_def
  release_def release_call_def callback_def resolve_def Let_def

lemmas world_eval = boot_def use_def submit_def submitAll_def Promise_all_def resume_def
  finish_def notify_def settle_in_def resolveElement_def reject_def settle_def
  private_tokens_def

theorem used_between_zero_and_capacity_witness:
  "Semaphore_new (Finite 2) = Inr (Semaphore_init 2) \<and>
   (0 \<le> used \<lparr>capacity = 1, count = 1, queue = [0], released = [False],
           futures = 1, resolved = []\<rparr> \<and>
    used \<lparr>capacity = 1, count = 1, queue = [0], released = [False],
           futures = 1, resolved = []\<rparr> \<le> 1) \<and>
   used (snd (release_call 0 \<lparr>capacity = 1, count = 1, queue = [0], released = [False],
           futures = 1, resolved = []\<rparr>)) = 1 \<and>
   play [Use (Settles 0 (Inr 7)), Client TryAcquire, Client TryAcquire, Resume 0,
         Client (Release 1)] (boot (Semaphore_init 2) :: (string, nat) world) =
     Some \<lparr>sem = \<lparr>capacity = 2, count = 1, queue = [], released = [False, True],
                  futures = 0, resolved = []\<rparr>,
           calls = [\<lparr>task = Settles 0 (Inr 7), permit = Now 0, stage = Running 0 0\<rparr>],
           alls = []\<rparr> \<and>
   used \<lparr>capacity = 2, count = 1, queue = [], released = [False, True],
         futures = 0, resolved = []\<rparr> \<le> 2"
proof -
  let ?s = "\<lparr>capacity = 1, count = 1, queue = [0], released = [False],
           futures = 1, resolved = []\<rparr>"
  let ?s2 = "\<lparr>capacity = 2, count = 1, queue = [], released = [False, True],
         futures = 0, resolved = []\<rparr>"
  let ?w = "\<lparr>sem = ?s2,
           calls = [\<lparr>task = Settles 0 (Inr 7) :: (string, nat) task, permit = Now 0,
                    stage = Running 0 0\<rparr>],
           alls = []\<rparr> :: (string, nat) world"
  have n: "Semaphore_new (Finite 2) = Inr (Semaphore_init 2)"
    by (simp add: Semaphore_new_def)
  have b: "0 \<le> used ?s \<and> used ?s \<le> capacity ?s" by (simp add: used_def)
  have p: "play [Use (Settles 0 (Inr 7)), Client TryAcquire, Client TryAcquire, Resume 0,
         Client (Release 1)] (boot (Semaphore_init 2)) = Some ?w"
    by (simp add: sem_eval world_eval)
  have r: "used (snd (release_call 0 ?s)) = 1"
    by (simp add: sem_eval used_def)
  from used_between_zero_and_capacity
    [of "Finite 2" "Semaphore_init 2" ?s 0
      "[Use (Settles 0 (Inr 7)), Client TryAcquire, Client TryAcquire, Resume 0,
        Client (Release 1)]" ?w] n b p
  have "used (sem ?w) \<le> capacity (sem ?w)" by blast
  then have "used ?s2 \<le> 2" by simp
  with n b p r show ?thesis by simp
qed

theorem in_flight_within_capacity_witness:
  "Semaphore_new (Finite 2) = Inr (Semaphore_init 2) \<and>
   play [SubmitAll [Settles 1 (Inr 1), Settles 1 (Inr 2), Settles 1 (Inr 3),
                    Settles 1 (Inr 4), Settles 1 (Inr 5)], Resume 0, Resume 1]
        (boot (Semaphore_init 2) :: (string, nat) world) =
     Some \<lparr>sem = \<lparr>capacity = 2, count = 2, queue = [0, 1, 2], released = [False, False],
                  futures = 3, resolved = []\<rparr>,
           calls =
             [\<lparr>task = Settles 1 (Inr 1), permit = Now 0, stage = Running 0 1\<rparr>,
              \<lparr>task = Settles 1 (Inr 2), permit = Now 1, stage = Running 1 1\<rparr>,
              \<lparr>task = Settles 1 (Inr 3), permit = Later 0, stage = Awaiting\<rparr>,
              \<lparr>task = Settles 1 (Inr 4), permit = Later 1, stage = Awaiting\<rparr>,
              \<lparr>task = Settles 1 (Inr 5), permit = Later 2, stage = Awaiting\<rparr>],
           alls = [\<lparr>members = [0, 1, 2, 3, 4],
                    elements = [None, None, None, None, None], remaining = 5,
                    result = None\<rparr>]\<rparr> \<and>
   in_flight \<lparr>sem = \<lparr>capacity = 2, count = 2, queue = [0, 1, 2], released = [False, False],
                  futures = 3, resolved = []\<rparr>,
           calls =
             [\<lparr>task = Settles 1 (Inr 1) :: (string, nat) task, permit = Now 0,
                stage = Running 0 1\<rparr>,
              \<lparr>task = Settles 1 (Inr 2), permit = Now 1, stage = Running 1 1\<rparr>,
              \<lparr>task = Settles 1 (Inr 3), permit = Later 0, stage = Awaiting\<rparr>,
              \<lparr>task = Settles 1 (Inr 4), permit = Later 1, stage = Awaiting\<rparr>,
              \<lparr>task = Settles 1 (Inr 5), permit = Later 2, stage = Awaiting\<rparr>],
           alls = [\<lparr>members = [0, 1, 2, 3, 4],
                    elements = [None, None, None, None, None], remaining = 5,
                    result = None\<rparr>]\<rparr> = 2 \<and>
   capacity (Semaphore_init 2) = 2 \<and>
   Mutex_new = Inr (Semaphore_init 1) \<and>
   play [Use (Settles 1 (Inr 1)), Use (Settles 1 (Inr 2)), Resume 0]
        (boot (Semaphore_init 1) :: (string, nat) world) =
     Some \<lparr>sem = \<lparr>capacity = 1, count = 1, queue = [0], released = [False],
                  futures = 1, resolved = []\<rparr>,
           calls =
             [\<lparr>task = Settles 1 (Inr 1), permit = Now 0, stage = Running 0 1\<rparr>,
              \<lparr>task = Settles 1 (Inr 2), permit = Later 0, stage = Awaiting\<rparr>],
           alls = []\<rparr> \<and>
   in_flight \<lparr>sem = \<lparr>capacity = 1, count = 1, queue = [0], released = [False],
                  futures = 1, resolved = []\<rparr>,
           calls =
             [\<lparr>task = Settles 1 (Inr 1) :: (string, nat) task, permit = Now 0,
                stage = Running 0 1\<rparr>,
              \<lparr>task = Settles 1 (Inr 2), permit = Later 0, stage = Awaiting\<rparr>],
           alls = []\<rparr> = 1"
proof -
  let ?w = "\<lparr>sem = \<lparr>capacity = 2, count = 2, queue = [0, 1, 2], released = [False, False],
                  futures = 3, resolved = []\<rparr>,
           calls =
             [\<lparr>task = Settles 1 (Inr 1) :: (string, nat) task, permit = Now 0,
                stage = Running 0 1\<rparr>,
              \<lparr>task = Settles 1 (Inr 2), permit = Now 1, stage = Running 1 1\<rparr>,
              \<lparr>task = Settles 1 (Inr 3), permit = Later 0, stage = Awaiting\<rparr>,
              \<lparr>task = Settles 1 (Inr 4), permit = Later 1, stage = Awaiting\<rparr>,
              \<lparr>task = Settles 1 (Inr 5), permit = Later 2, stage = Awaiting\<rparr>],
           alls = [\<lparr>members = [0, 1, 2, 3, 4],
                    elements = [None, None, None, None, None], remaining = 5,
                    result = None\<rparr>]\<rparr> :: (string, nat) world"
  have n: "Semaphore_new (Finite 2) = Inr (Semaphore_init 2)"
    by (simp add: Semaphore_new_def)
  have p: "play [SubmitAll [Settles 1 (Inr 1), Settles 1 (Inr 2), Settles 1 (Inr 3),
                    Settles 1 (Inr 4), Settles 1 (Inr 5)], Resume 0, Resume 1]
        (boot (Semaphore_init 2)) = Some ?w"
    by (simp add: sem_eval world_eval)
  have f: "in_flight ?w = 2" by (simp add: in_flight_def holding_def)
  have c: "capacity (Semaphore_init 2) = 2" by (simp add: Semaphore_init_def)
  let ?m = "\<lparr>sem = \<lparr>capacity = 1, count = 1, queue = [0], released = [False],
                  futures = 1, resolved = []\<rparr>,
           calls =
             [\<lparr>task = Settles 1 (Inr 1) :: (string, nat) task, permit = Now 0,
                stage = Running 0 1\<rparr>,
              \<lparr>task = Settles 1 (Inr 2), permit = Later 0, stage = Awaiting\<rparr>],
           alls = []\<rparr> :: (string, nat) world"
  have mx: "Mutex_new = Inr (Semaphore_init 1)"
    by (simp add: Mutex_new_def Semaphore_new_def)
  have n1: "Semaphore_new (Finite 1) = Inr (Semaphore_init 1)"
    by (simp add: Semaphore_new_def)
  have pm: "play [Use (Settles 1 (Inr 1)), Use (Settles 1 (Inr 2)), Resume 0]
        (boot (Semaphore_init 1)) = Some ?m"
    by (simp add: sem_eval world_eval)
  have fm: "in_flight ?m = 1" by (simp add: in_flight_def holding_def)
  from in_flight_within_capacity [OF n1 pm] mx
  have t1: "in_flight ?m \<le> 1" by blast
  from in_flight_within_capacity [OF n p]
  have t2: "int (in_flight ?w) \<le> capacity (Semaphore_init 2)" by blast
  from t1 t2 n p f c mx pm fm show ?thesis by blast
qed

section \<open>\<^verbatim>\<open>use\<close> and \<^verbatim>\<open>submit\<close>\<close>

lemma play_append:
  "play (xs @ ys) w = (case play xs w of None \<Rightarrow> None | Some w' \<Rightarrow> play ys w')"
  by (induction xs arbitrary: w) (auto split: option.splits)

lemma countdown:
  "k < length (calls v) \<Longrightarrow> stage (calls v ! k) = Running t n \<Longrightarrow>
   play (replicate n (Resume k)) v =
     Some (v\<lparr>calls := (calls v)[k := (calls v ! k)\<lparr>stage := Running t 0\<rparr>]\<rparr>)"
proof (induction n arbitrary: v)
  case 0
  then have "(calls v ! k)\<lparr>stage := Running t 0\<rparr> = calls v ! k" by simp
  then show ?case by simp
next
  case (Suc n)
  let ?v1 = "v\<lparr>calls := (calls v)[k := (calls v ! k)\<lparr>stage := Running t n\<rparr>]\<rparr>"
  have r: "resume k v = Some ?v1"
    using Suc.prems by (simp add: resume_def Let_def)
  have "play (replicate n (Resume k)) ?v1 =
      Some (?v1\<lparr>calls := (calls ?v1)[k := (calls ?v1 ! k)\<lparr>stage := Running t 0\<rparr>]\<rparr>)"
    using Suc.prems by (intro Suc.IH) simp_all
  then show ?case using r Suc.prems(1) by simp
qed

lemma use_alone:
  assumes ok: "world_ok w" and free: "used (sem w) < capacity (sem w)"
  shows "\<exists>w'. play (replicate (turns fn) (Resume (fst (use fn w)))) (snd (use fn w)) = Some w' \<and>
     stage (calls w' ! fst (use fn w)) = Returned (outcome fn) \<and>
     used (sem w') = used (sem w)"
proof -
  let ?s = "sem w" and ?k = "length (calls w)" and ?t = "length (released (sem w))"
  let ?s1 = "?s\<lparr>count := count ?s + 1, released := released ?s @ [False]\<rparr>"
  let ?c = "\<lparr>task = fn, permit = Now ?t, stage = Awaiting\<rparr>"
  let ?w1 = "w\<lparr>sem := ?s1, calls := calls w @ [?c]\<rparr>"
  have sok: "sem_ok ?s" using ok by (simp add: world_ok_def)
  have lt: "count ?s < capacity ?s" using free by (simp add: used_def)
  have q: "queue ?s = []" using sok lt unfolding sem_ok_def by auto
  have nn: "0 \<le> count ?s" using sok by (simp add: sem_ok_def)
  have u: "use fn w = (?k, ?w1)" using lt by (simp add: use_eq acquire_cases)
  have rel: "release_call ?t ?s1 =
      (True, ?s1\<lparr>released := (released ?s1)[?t := True], count := count ?s1 - 1\<rparr>)"
    using nn q by (intro release_call_empty_queue) simp_all
  have fin: "\<And>v r. sem v = ?s1 \<Longrightarrow> ?k < length (calls v) \<Longrightarrow>
      stage (calls (finish ?k ?t r v) ! ?k) = Returned r \<and>
      used (sem (finish ?k ?t r v)) = used ?s"
    by (simp add: finish_eq rel used_def)
  show ?thesis
  proof (cases fn)
    case (Throws e)
    have "resume ?k ?w1 = Some (finish ?k ?t (Inl e) ?w1)"
      using Throws by (simp add: resume_def Let_def)
    then have "play (replicate (turns fn) (Resume ?k)) ?w1 = Some (finish ?k ?t (Inl e) ?w1)"
      using Throws by simp
    moreover have "stage (calls (finish ?k ?t (Inl e) ?w1) ! ?k) = Returned (Inl e) \<and>
      used (sem (finish ?k ?t (Inl e) ?w1)) = used ?s"
      by (intro fin) simp_all
    ultimately show ?thesis unfolding u using Throws by simp
  next
    case (Settles n r)
    let ?w2 = "?w1\<lparr>calls := (calls ?w1)[?k := ?c\<lparr>stage := Running ?t n\<rparr>]\<rparr>"
    let ?w3 = "?w2\<lparr>calls := (calls ?w2)[?k := (calls ?w2 ! ?k)\<lparr>stage := Running ?t 0\<rparr>]\<rparr>"
    have 1: "resume ?k ?w1 = Some ?w2"
      using Settles by (simp add: resume_def Let_def)
    have 2: "play (replicate n (Resume ?k)) ?w2 = Some ?w3"
      by (intro countdown) simp_all
    have 3: "resume ?k ?w3 = Some (finish ?k ?t r ?w3)"
      using Settles by (simp add: resume_def Let_def)
    have e: "replicate (turns fn) (Resume ?k) =
        Resume ?k # (replicate n (Resume ?k) @ [Resume ?k])"
      using Settles by (simp add: replicate_append_same)
    have "play (replicate n (Resume ?k) @ [Resume ?k]) ?w2 = Some (finish ?k ?t r ?w3)"
      using 2 3 by (simp add: play_append)
    then have "play (Resume ?k # (replicate n (Resume ?k) @ [Resume ?k])) ?w1
        = Some (finish ?k ?t r ?w3)"
      using 1 by simp
    then have "play (replicate (turns fn) (Resume ?k)) ?w1 = Some (finish ?k ?t r ?w3)"
      unfolding e .
    moreover have "stage (calls (finish ?k ?t r ?w3) ! ?k) = Returned r \<and>
      used (sem (finish ?k ?t r ?w3)) = used ?s"
      by (intro fin) simp_all
    ultimately show ?thesis unfolding u using Settles by simp
  qed
qed

text \<open>
  C6, as stated, asks that \<open>used\<close> after \<open>use\<close> completes equals its value before the call.
  On a semaphore of capacity 1 a first \<open>use\<close> holds the permit when a second \<open>use\<close> is
  called: \<open>used\<close> is 1 before that call. The second call is queued, gets the slot when the
  first releases, runs and releases: \<open>used\<close> is 0 after it has completed.
\<close>

theorem use_restores_used_counterexample:
  "play [Use (Settles 0 (Inr 1))] (boot (Semaphore_init 1) :: (string, nat) world) =
     Some \<lparr>sem = \<lparr>capacity = 1, count = 1, queue = [], released = [False], futures = 0,
                  resolved = []\<rparr>,
           calls = [\<lparr>task = Settles 0 (Inr 1), permit = Now 0, stage = Awaiting\<rparr>],
           alls = []\<rparr> \<and>
   play [Use (Settles 0 (Inr 2)), Resume 0, Resume 0, Resume 1, Resume 1]
     \<lparr>sem = \<lparr>capacity = 1, count = 1, queue = [], released = [False], futures = 0,
             resolved = []\<rparr>,
      calls = [\<lparr>task = Settles 0 (Inr 1) :: (string, nat) task, permit = Now 0,
               stage = Awaiting\<rparr>],
      alls = []\<rparr> =
     Some \<lparr>sem = \<lparr>capacity = 1, count = 0, queue = [], released = [True, True],
                  futures = 1, resolved = [(0, 1)]\<rparr>,
           calls = [\<lparr>task = Settles 0 (Inr 1), permit = Now 0, stage = Returned (Inr 1)\<rparr>,
                    \<lparr>task = Settles 0 (Inr 2), permit = Later 0,
                      stage = Returned (Inr 2)\<rparr>],
           alls = []\<rparr> \<and>
   used \<lparr>capacity = 1, count = 0, queue = [], released = [True, True],
         futures = 1, resolved = [(0, 1)]\<rparr> \<noteq>
   used \<lparr>capacity = 1, count = 1, queue = [], released = [False], futures = 0,
         resolved = []\<rparr>"
  by (simp add: sem_eval world_eval used_def)

text \<open>
  C6, amended. In every history, an activation of \<open>use\<close> (\<open>submit\<close> is the same call)
  that has completed has released the token it acquired, whether its operation returned,
  rejected or threw, and its result is exactly the outcome of the operation. When a
  permit is free at the call and nothing else happens on the semaphore until the
  activation completes, \<open>used\<close> is then what it was before the call.
\<close>

theorem use_releases_on_every_path:
  assumes "Semaphore_new c = Inr s0" and "play es (boot s0) = Some w"
  shows "(\<forall>k < length (calls w). \<forall>r. stage (calls w ! k) = Returned r \<longrightarrow>
        r = outcome (task (calls w ! k)) \<and>
        (\<exists>t. token_of (sem w) (permit (calls w ! k)) = Some t \<and> released (sem w) ! t)) \<and>
     (used (sem w) < capacity (sem w) \<longrightarrow>
        (\<exists>w'. play (replicate (turns fn) (Resume (fst (use fn w)))) (snd (use fn w)) = Some w' \<and>
           stage (calls w' ! fst (use fn w)) = Returned (outcome fn) \<and>
           used (sem w') = used (sem w))) \<and>
     submit fn w = use fn w"
proof (intro conjI allI impI)
  have ok: "world_ok w" using world_ok_play [OF world_ok_boot] assms by blast
  {
    fix k r assume k: "k < length (calls w)" and st: "stage (calls w ! k) = Returned r"
    have "call_ok (sem w) (calls w ! k)" using ok k by (simp add: world_ok_def)
    then show "r = outcome (task (calls w ! k))"
      and "\<exists>t. token_of (sem w) (permit (calls w ! k)) = Some t \<and> released (sem w) ! t"
      using st by (simp_all add: call_ok_def)
  }
  {
    assume "used (sem w) < capacity (sem w)"
    from use_alone [OF ok this]
    show "\<exists>w'. play (replicate (turns fn) (Resume (fst (use fn w)))) (snd (use fn w)) = Some w' \<and>
           stage (calls w' ! fst (use fn w)) = Returned (outcome fn) \<and>
           used (sem w') = used (sem w)" .
  }
  show "submit fn w = use fn w" by (simp add: submit_def)
qed

theorem use_releases_on_every_path_witness:
  "Semaphore_new (Finite 1) = Inr (Semaphore_init 1) \<and>
   play [Use (Throws ''boom''), Resume 0] (boot (Semaphore_init 1) :: (string, nat) world) =
     Some \<lparr>sem = \<lparr>capacity = 1, count = 0, queue = [], released = [True], futures = 0,
                  resolved = []\<rparr>,
           calls = [\<lparr>task = Throws ''boom'', permit = Now 0,
                     stage = Returned (Inl ''boom'')\<rparr>],
           alls = []\<rparr> \<and>
   play [Resume 1, Resume 1]
     (snd (use (Settles 0 (Inl ''late''))
        \<lparr>sem = \<lparr>capacity = 1, count = 0, queue = [], released = [True], futures = 0,
                  resolved = []\<rparr>,
         calls = [\<lparr>task = Throws ''boom'' :: (string, nat) task, permit = Now 0,
                   stage = Returned (Inl ''boom'')\<rparr>],
         alls = []\<rparr>)) =
     Some \<lparr>sem = \<lparr>capacity = 1, count = 0, queue = [], released = [True, True],
                  futures = 0, resolved = []\<rparr>,
           calls = [\<lparr>task = Throws ''boom'', permit = Now 0,
                     stage = Returned (Inl ''boom'')\<rparr>,
                    \<lparr>task = Settles 0 (Inl ''late''), permit = Now 1,
                     stage = Returned (Inl ''late'')\<rparr>],
           alls = []\<rparr> \<and>
   outcome (Throws ''boom'' :: (string, nat) task) = Inl ''boom'' \<and>
   used \<lparr>capacity = 1, count = 0, queue = [], released = [True, True],
         futures = 0, resolved = []\<rparr> =
   used \<lparr>capacity = 1, count = 0, queue = [], released = [True], futures = 0,
         resolved = []\<rparr>"
proof -
  let ?w = "\<lparr>sem = \<lparr>capacity = 1, count = 0, queue = [], released = [True], futures = 0,
                  resolved = []\<rparr>,
         calls = [\<lparr>task = Throws ''boom'' :: (string, nat) task, permit = Now 0,
                   stage = Returned (Inl ''boom'')\<rparr>],
         alls = []\<rparr> :: (string, nat) world"
  let ?fn = "Settles 0 (Inl ''late'') :: (string, nat) task"
  let ?w2 = "\<lparr>sem = \<lparr>capacity = 1, count = 0, queue = [], released = [True, True],
                  futures = 0, resolved = []\<rparr>,
           calls = [\<lparr>task = Throws ''boom'', permit = Now 0,
                     stage = Returned (Inl ''boom'')\<rparr>,
                    \<lparr>task = ?fn, permit = Now 1, stage = Returned (Inl ''late'')\<rparr>],
           alls = []\<rparr> :: (string, nat) world"
  have n: "Semaphore_new (Finite 1) = Inr (Semaphore_init 1)"
    by (simp add: Semaphore_new_def)
  have p: "play [Use (Throws ''boom''), Resume 0] (boot (Semaphore_init 1)) = Some ?w"
    by (simp add: sem_eval world_eval)
  have free: "used (sem ?w) < capacity (sem ?w)" by (simp add: used_def)
  have k: "0 < length (calls ?w)" and st: "stage (calls ?w ! 0) = Returned (Inl ''boom'')"
    by simp_all
  have q: "play [Resume 1, Resume 1] (snd (use ?fn ?w)) = Some ?w2"
    by (simp add: sem_eval world_eval)
  have f: "fst (use ?fn ?w) = 1" by (simp add: use_eq)
  have tn: "replicate (turns ?fn) (Resume (fst (use ?fn ?w))) = [Resume 1, Resume 1]"
    unfolding f by (simp add: numeral_2_eq_2)
  note t = use_releases_on_every_path [OF n p, of ?fn]
  from t k st have o: "Inl ''boom'' = outcome (task (calls ?w ! 0))" by blast
  from t free obtain w' where
    "play (replicate (turns ?fn) (Resume (fst (use ?fn ?w)))) (snd (use ?fn ?w)) = Some w'"
    and u: "used (sem w') = used (sem ?w)"
    by blast
  then have "w' = ?w2" unfolding tn q by simp
  with u have "used (sem ?w2) = used (sem ?w)" by simp
  with n p q o show ?thesis by simp
qed

section \<open>\<^verbatim>\<open>submitAll\<close>\<close>

lemma members_settle_in: "members (settle_in k r a) = members a"
  by (simp add: settle_in_def reject_def resolveElement_def Let_def
      split: option.splits sum.splits)

lemma result_settle_in: "result a = Some x \<Longrightarrow> result (settle_in k r a) = Some x"
  by (simp add: settle_in_def reject_def resolveElement_def settle_def Let_def
      split: option.splits sum.splits)

lemma keeps_refl: "keeps w w"
  by (simp add: keeps_def)

lemma keeps_trans: "keeps w w1 \<Longrightarrow> keeps w1 w2 \<Longrightarrow> keeps w w2"
  unfolding keeps_def by (metis (no_types, lifting) le_trans less_le_trans)

lemma keeps_sem: "keeps w (w\<lparr>sem := s\<rparr>)"
  by (simp add: keeps_def)

lemma task_restage:
  "j < length cs \<Longrightarrow> task (cs[k := (cs ! k)\<lparr>stage := x\<rparr>] ! j) = task (cs ! j)"
  by (cases "j = k") simp_all

lemma keeps_restage:
  "keeps w (w\<lparr>calls := (calls w)[k := (calls w ! k)\<lparr>stage := x\<rparr>]\<rparr>)"
  by (simp add: keeps_def task_restage)

lemma keeps_finish: "keeps w (finish k t r w)"
  unfolding finish_eq
  by (simp add: keeps_def task_restage members_settle_in result_settle_in)

lemma keeps_use: "keeps w (snd (use fn w))"
  by (simp add: keeps_def use_eq nth_append)

lemma keeps_submit_each: "keeps w (snd (submit_each fns w))"
proof (induction fns arbitrary: w)
  case Nil
  then show ?case by (simp add: keeps_refl)
next
  case (Cons fn fns)
  have "snd (submit_each (fn # fns) w) = snd (submit_each fns (snd (use fn w)))"
    by (simp add: submit_def split_beta)
  then show ?case using keeps_trans [OF keeps_use Cons.IH] by simp
qed

lemma keeps_submitAll: "keeps w (snd (submitAll fns w))"
proof -
  let ?w1 = "snd (submit_each fns w)"
  have "keeps ?w1 (snd (submitAll fns w))"
    by (simp add: submitAll_eq keeps_def nth_append)
  from keeps_trans [OF keeps_submit_each this] show ?thesis .
qed

lemma keeps_step: "step e w = Some w' \<Longrightarrow> keeps w w'"
proof (cases e)
  case (Client a)
  assume "step e w = Some w'"
  then show ?thesis using Client keeps_sem by (auto split: if_splits)
next
  case (Use fn)
  assume "step e w = Some w'"
  then show ?thesis using Use keeps_use [of w fn] by auto
next
  case (SubmitAll fns)
  assume "step e w = Some w'"
  then show ?thesis using SubmitAll keeps_submitAll [of w fns] by auto
next
  case (Resume k)
  assume "step e w = Some w'"
  then show ?thesis
    using Resume keeps_finish keeps_restage
    by (auto simp: resume_def Let_def
        split: if_splits stage.splits option.splits task.splits nat.splits)
qed

lemma keeps_play: "play es w = Some w' \<Longrightarrow> keeps w w'"
proof (induction es arbitrary: w)
  case Nil
  then show ?case by (simp add: keeps_refl)
next
  case (Cons e es)
  from Cons.prems obtain w1 where s: "step e w = Some w1" and p: "play es w1 = Some w'"
    by (auto split: option.splits)
  from keeps_trans [OF keeps_step [OF s] Cons.IH [OF p]] show ?case .
qed

lemma stage_restage:
  "j \<noteq> k \<Longrightarrow> stage (cs[k := c] ! j) = stage (cs ! j)"
  by simp

lemma step_one_stage:
  assumes "step ev w = Some w'"
  shows "\<exists>k. \<forall>j < length (calls w). j \<noteq> k \<longrightarrow> stage (calls w' ! j) = stage (calls w ! j)"
proof (cases ev)
  case (Client a)
  then have "calls w' = calls w" using assms by (auto split: if_splits)
  then show ?thesis by simp
next
  case (Use fn)
  then have "calls w' = calls w @ [\<lparr>task = fn, permit = fst (acquire (sem w)),
      stage = Awaiting\<rparr>]"
    using assms by (auto simp: use_eq)
  then show ?thesis by (simp add: nth_append)
next
  case (SubmitAll fns)
  obtain ks v where se: "submit_each fns w = (ks, v)" by fastforce
  from submit_each_shape [OF se] obtain new where "calls v = calls w @ new" by blast
  moreover have "calls w' = calls v"
    using SubmitAll assms se by (auto simp: submitAll_eq)
  ultimately show ?thesis by (simp add: nth_append)
next
  case (Resume k)
  then have "resume k w = Some w'" using assms by simp
  then have "\<exists>c. calls w' = (calls w)[k := c]"
    by (auto simp: resume_def Let_def finish_eq
        split: if_splits stage.splits option.splits task.splits nat.splits)
  then obtain c where "calls w' = (calls w)[k := c]" by blast
  then have "\<forall>j < length (calls w). j \<noteq> k \<longrightarrow> stage (calls w' ! j) = stage (calls w ! j)"
    by (simp add: stage_restage)
  then show ?thesis by blast
qed

lemma slot_SomeD: "slot c = Some v \<Longrightarrow> stage c = Returned (Inr v)"
  by (auto simp: slot_def split: stage.splits sum.splits)

text \<open>
  C7. \<open>submitAll\<close> of a list of tasks, called after any history and followed by any
  further history (any order of completion): when the aggregate promise is fulfilled, its
  list is the tasks' values in the order of the input list; it is fulfilled once every
  task has returned a value, at once for the empty list, which leaves the semaphore and
  so the gauge \<open>tasks\<close> unchanged. When a task fails the aggregate is rejected with the
  error that task produced; where several tasks fail with different errors it is the
  error of the first to fail: a failure that arrives while the aggregate is pending
  rejects it with exactly that error, and a settled aggregate never changes.
\<close>

theorem submitAll_results_in_input_order:
  assumes new: "Semaphore_new c = Inr s0" and h: "play es (boot s0) = Some w"
    and sub: "submitAll fns w = (a, w1)" and h2: "play es' w1 = Some w2"
  shows "(\<forall>xs. result (alls w2 ! a) = Some (Inr xs) \<longrightarrow> map outcome fns = map Inr xs) \<and>
    ((\<forall>i < length fns. \<exists>v. stage (calls w2 ! (length (calls w) + i)) = Returned (Inr v)) \<longrightarrow>
       (\<exists>xs. result (alls w2 ! a) = Some (Inr xs))) \<and>
    (fns = [] \<longrightarrow> result (alls w1 ! a) = Some (Inr []) \<and> sem w1 = sem w \<and>
       tasks \<lparr>semaphore = sem w1\<rparr> = tasks \<lparr>semaphore = sem w\<rparr>) \<and>
    (\<forall>i < length fns. \<forall>e. stage (calls w2 ! (length (calls w) + i)) = Returned (Inl e) \<longrightarrow>
       outcome (fns ! i) = Inl e \<and> (\<exists>e'. result (alls w2 ! a) = Some (Inl e'))) \<and>
    (\<forall>e. result (alls w2 ! a) = Some (Inl e) \<longrightarrow>
       (\<exists>i < length fns. outcome (fns ! i) = Inl e \<and>
          stage (calls w2 ! (length (calls w) + i)) = Returned (Inl e))) \<and>
    (\<forall>i < length fns. \<forall>e. stage (calls w2 ! (length (calls w) + i)) = Returned (Inl e) \<and>
         (\<forall>j < length fns. \<forall>e'.
            stage (calls w2 ! (length (calls w) + j)) = Returned (Inl e') \<longrightarrow> e' = e) \<longrightarrow>
       result (alls w2 ! a) = Some (Inl e)) \<and>
    (\<forall>ev w3 i e. step ev w2 = Some w3 \<and> i < length fns \<and>
         result (alls w2 ! a) = None \<and>
         stage (calls w3 ! (length (calls w) + i)) = Returned (Inl e) \<longrightarrow>
       result (alls w3 ! a) = Some (Inl e)) \<and>
    (\<forall>x es'' w3. result (alls w2 ! a) = Some x \<and> play es'' w2 = Some w3 \<longrightarrow>
       result (alls w3 ! a) = Some x)"
proof -
  let ?len = "length (calls w)" and ?n = "length fns"
  let ?ks = "[?len..<?len + ?n]"
  let ?cs = "calls w2" and ?A = "alls w2 ! a"
  have ok: "world_ok w" using world_ok_play [OF world_ok_boot] new h by blast
  have ok1: "world_ok w1" using world_ok_submitAll [OF ok, of fns] sub by simp
  have ok2: "world_ok w2" using world_ok_play [OF ok1 h2] .
  obtain ks0 v where se: "submit_each fns w = (ks0, v)" by fastforce
  from submit_each_shape [OF se] obtain new_calls where
    ks0: "ks0 = ?ks" and cv: "calls v = calls w @ new_calls"
    and tv: "map task new_calls = fns" and av: "alls v = alls w"
    by blast
  have ln: "length new_calls = ?n" using tv by (metis length_map)
  have a: "a = length (alls w)" and c1: "calls w1 = calls w @ new_calls"
    and a1: "alls w1 = alls w @
      [\<lparr>members = ?ks, elements = replicate ?n None, remaining = ?n,
        result = (if ?ks = [] then Some (Inr []) else None)\<rparr>]"
    using sub unfolding submitAll_eq se by (auto simp: ks0 cv av)
  have m1: "members (alls w1 ! a) = ?ks" and al1: "a < length (alls w1)"
    unfolding a1 a by simp_all
  have k12: "keeps w1 w2" using keeps_play [OF h2] .
  have al2: "a < length (alls w2)" using k12 al1 unfolding keeps_def by linarith
  have m2: "members ?A = ?ks" using k12 al1 m1 unfolding keeps_def by metis
  have lc: "?len + ?n \<le> length ?cs"
    using k12 unfolding keeps_def c1 using ln by simp
  have tk: "task (?cs ! (?len + i)) = fns ! i" if "i < ?n" for i
  proof -
    have "?len + i < length (calls w1)" unfolding c1 using that ln by simp
    then have "task (?cs ! (?len + i)) = task (calls w1 ! (?len + i))"
      using k12 unfolding keeps_def by blast
    also have "\<dots> = task (new_calls ! i)" unfolding c1 by simp
    also have "\<dots> = fns ! i" using tv that ln by (metis nth_map)
    finally show ?thesis .
  qed
  have oc: "r = outcome (fns ! i)"
    if "i < ?n" and "stage (?cs ! (?len + i)) = Returned r" for i r
  proof -
    have "?len + i < length ?cs" using lc that(1) by simp
    then have "call_ok (sem w2) (?cs ! (?len + i))" using ok2 by (simp add: world_ok_def)
    then have "r = outcome (task (?cs ! (?len + i)))"
      using that(2) by (simp add: call_ok_def)
    then show ?thesis using tk [OF that(1)] by simp
  qed
  have aok: "all_ok ?cs ?A" using ok2 al2 by (simp add: world_ok_def)
  have el: "elements ?A = map (\<lambda>k. slot (?cs ! k)) ?ks"
    and rm: "remaining ?A = length (filter (\<lambda>k. \<not> fulfilled (?cs ! k)) ?ks)"
    and r1: "\<forall>k \<in> set ?ks. \<forall>e. stage (?cs ! k) = Returned (Inl e) \<longrightarrow>
         (\<exists>e'. result ?A = Some (Inl e'))"
    and r2: "\<forall>e. result ?A = Some (Inl e) \<longrightarrow>
         (\<exists>k \<in> set ?ks. stage (?cs ! k) = Returned (Inl e))"
    and r3: "\<forall>xs. result ?A = Some (Inr xs) \<longrightarrow> map Some xs = elements ?A"
    and r4: "result ?A = None \<longrightarrow> 0 < remaining ?A"
    using aok unfolding all_ok_def m2 by blast+
  have 1: "\<forall>xs. result ?A = Some (Inr xs) \<longrightarrow> map outcome fns = map Inr xs"
  proof (intro allI impI)
    fix xs assume "result ?A = Some (Inr xs)"
    then have e: "map Some xs = map (\<lambda>k. slot (?cs ! k)) ?ks" using r3 el by simp
    then have lx: "length xs = ?n" by (metis length_map length_upt add_diff_cancel_left')
    show "map outcome fns = map Inr xs"
    proof (rule nth_equalityI)
      show "length (map outcome fns) = length (map Inr xs)" using lx by simp
    next
      fix i assume "i < length (map outcome fns)"
      then have i: "i < ?n" by simp
      have "map Some xs ! i = map (\<lambda>k. slot (?cs ! k)) ?ks ! i" using e by simp
      then have "slot (?cs ! (?len + i)) = Some (xs ! i)" using i lx by simp
      then have "stage (?cs ! (?len + i)) = Returned (Inr (xs ! i))" by (rule slot_SomeD)
      from oc [OF i this] show "map outcome fns ! i = map Inr xs ! i" using i lx by simp
    qed
  qed
  have 2: "(\<forall>i < ?n. \<exists>v. stage (?cs ! (?len + i)) = Returned (Inr v)) \<longrightarrow>
       (\<exists>xs. result ?A = Some (Inr xs))"
  proof
    assume all: "\<forall>i < ?n. \<exists>v. stage (?cs ! (?len + i)) = Returned (Inr v)"
    have ful: "\<forall>k \<in> set ?ks. \<exists>v. stage (?cs ! k) = Returned (Inr v)"
    proof
      fix k assume "k \<in> set ?ks"
      then have "k - ?len < ?n" "k = ?len + (k - ?len)" by auto
      then show "\<exists>v. stage (?cs ! k) = Returned (Inr v)" using all by metis
    qed
    then have "\<forall>k \<in> set ?ks. fulfilled (?cs ! k)" by (auto simp: fulfilled_def)
    then have "filter (\<lambda>k. \<not> fulfilled (?cs ! k)) ?ks = []" by (simp add: filter_empty_conv)
    then have "remaining ?A = 0" using rm by simp
    with r4 obtain x where x: "result ?A = Some x" by auto
    show "\<exists>xs. result ?A = Some (Inr xs)"
    proof (cases x)
      case (Inl e)
      with x r2 obtain k where "k \<in> set ?ks" "stage (?cs ! k) = Returned (Inl e)" by blast
      with ful show ?thesis by force
    next
      case (Inr xs)
      with x show ?thesis by blast
    qed
  qed
  have 3: "fns = [] \<longrightarrow> result (alls w1 ! a) = Some (Inr []) \<and> sem w1 = sem w \<and>
       tasks \<lparr>semaphore = sem w1\<rparr> = tasks \<lparr>semaphore = sem w\<rparr>"
  proof
    assume "fns = []"
    then have "submitAll fns w = (length (alls w),
        w\<lparr>alls := alls w @ [\<lparr>members = [], elements = [], remaining = 0,
          result = Some (Inr [])\<rparr>]\<rparr>)"
      by (simp add: submitAll_def Promise_all_def)
    with sub show "result (alls w1 ! a) = Some (Inr []) \<and> sem w1 = sem w \<and>
       tasks \<lparr>semaphore = sem w1\<rparr> = tasks \<lparr>semaphore = sem w\<rparr>"
      by auto
  qed
  have 4: "\<forall>i < ?n. \<forall>e. stage (?cs ! (?len + i)) = Returned (Inl e) \<longrightarrow>
       outcome (fns ! i) = Inl e \<and> (\<exists>e'. result ?A = Some (Inl e'))"
  proof (intro allI impI)
    fix i e assume i: "i < ?n" and st: "stage (?cs ! (?len + i)) = Returned (Inl e)"
    have "?len + i \<in> set ?ks" using i by simp
    with r1 st have "\<exists>e'. result ?A = Some (Inl e')" by blast
    moreover have "outcome (fns ! i) = Inl e" using oc [OF i st] by simp
    ultimately show "outcome (fns ! i) = Inl e \<and> (\<exists>e'. result ?A = Some (Inl e'))" by simp
  qed
  have 5: "\<forall>e. result ?A = Some (Inl e) \<longrightarrow>
       (\<exists>i < ?n. outcome (fns ! i) = Inl e \<and> stage (?cs ! (?len + i)) = Returned (Inl e))"
  proof (intro allI impI)
    fix e assume "result ?A = Some (Inl e)"
    with r2 obtain k where k: "k \<in> set ?ks" and st: "stage (?cs ! k) = Returned (Inl e)"
      by blast
    let ?i = "k - ?len"
    have i: "?i < ?n" and ki: "k = ?len + ?i" using k by auto
    have st': "stage (?cs ! (?len + ?i)) = Returned (Inl e)" using st ki by simp
    from oc [OF i st'] have "outcome (fns ! ?i) = Inl e" by simp
    with i st' show "\<exists>i < ?n. outcome (fns ! i) = Inl e \<and>
        stage (?cs ! (?len + i)) = Returned (Inl e)" by blast
  qed
  have 6: "\<forall>x es'' w3. result ?A = Some x \<and> play es'' w2 = Some w3 \<longrightarrow>
       result (alls w3 ! a) = Some x"
  proof (intro allI impI)
    fix x es'' w3 assume p: "result ?A = Some x \<and> play es'' w2 = Some w3"
    then have "keeps w2 w3" using keeps_play by blast
    then show "result (alls w3 ! a) = Some x" using al2 p unfolding keeps_def by blast
  qed
  have 7: "\<forall>ev w3 i e. step ev w2 = Some w3 \<and> i < ?n \<and> result ?A = None \<and>
         stage (calls w3 ! (?len + i)) = Returned (Inl e) \<longrightarrow>
       result (alls w3 ! a) = Some (Inl e)"
  proof (intro allI impI)
    fix ev w3 i e
    assume p: "step ev w2 = Some w3 \<and> i < ?n \<and> result ?A = None \<and>
         stage (calls w3 ! (?len + i)) = Returned (Inl e)"
    then have st: "step ev w2 = Some w3" and i: "i < ?n" and pend: "result ?A = None"
      and fl: "stage (calls w3 ! (?len + i)) = Returned (Inl e)"
      by simp_all
    have ok3: "world_ok w3" using world_ok_step [OF ok2 st] .
    have k23: "keeps w2 w3" using keeps_step [OF st] .
    have al3: "a < length (alls w3)" using k23 al2 unfolding keeps_def by linarith
    have m3: "members (alls w3 ! a) = ?ks" using k23 al2 m2 unfolding keeps_def by metis
    have aok3: "all_ok (calls w3) (alls w3 ! a)" using ok3 al3 by (simp add: world_ok_def)
    have mem: "?len + i \<in> set ?ks" using i by simp
    have none2: "\<forall>k \<in> set ?ks. \<forall>e'. stage (?cs ! k) \<noteq> Returned (Inl e')"
      using r1 pend by auto
    from aok3 mem fl obtain e' where e': "result (alls w3 ! a) = Some (Inl e')"
      unfolding all_ok_def m3 by blast
    with aok3 obtain m where m: "m \<in> set ?ks" and sm: "stage (calls w3 ! m) = Returned (Inl e')"
      unfolding all_ok_def m3 by blast
    from step_one_stage [OF st] obtain k where
      one: "\<forall>j < length ?cs. j \<noteq> k \<longrightarrow> stage (calls w3 ! j) = stage (?cs ! j)"
      by blast
    have lm: "m < length ?cs" and li: "?len + i < length ?cs" using m lc i by auto
    have "m = k" using one lm sm none2 m by metis
    moreover have "?len + i = k" using one li fl none2 mem by metis
    ultimately have "e' = e" using sm fl by simp
    with e' show "result (alls w3 ! a) = Some (Inl e)" by simp
  qed
  have 8: "\<forall>i < ?n. \<forall>e. stage (?cs ! (?len + i)) = Returned (Inl e) \<and>
         (\<forall>j < ?n. \<forall>e'. stage (?cs ! (?len + j)) = Returned (Inl e') \<longrightarrow> e' = e) \<longrightarrow>
       result ?A = Some (Inl e)"
  proof (intro allI impI)
    fix i e
    assume i: "i < ?n"
      and p: "stage (?cs ! (?len + i)) = Returned (Inl e) \<and>
         (\<forall>j < ?n. \<forall>e'. stage (?cs ! (?len + j)) = Returned (Inl e') \<longrightarrow> e' = e)"
    from 4 i p obtain e' where e': "result ?A = Some (Inl e')" by blast
    with 5 obtain j where "j < ?n" "stage (?cs ! (?len + j)) = Returned (Inl e')" by blast
    with p have "e' = e" by blast
    with e' show "result ?A = Some (Inl e)" by simp
  qed
  from 1 2 3 4 5 8 7 6 show ?thesis by (intro conjI)
qed

theorem submitAll_results_in_input_order_witness:
  "Semaphore_new (Finite 2) = Inr (Semaphore_init 2) \<and>
   play [] (boot (Semaphore_init 2) :: (string, nat) world) = Some (boot (Semaphore_init 2)) \<and>
   fst (submitAll [Settles 1 (Inr 1), Settles 0 (Inr 2), Settles 0 (Inr 3)]
         (boot (Semaphore_init 2) :: (string, nat) world)) = 0 \<and>
   play [Resume 1, Resume 1, Resume 2, Resume 2, Resume 0, Resume 0, Resume 0]
     (snd (submitAll [Settles 1 (Inr 1), Settles 0 (Inr 2), Settles 0 (Inr 3)]
         (boot (Semaphore_init 2) :: (string, nat) world))) =
     Some \<lparr>sem = \<lparr>capacity = 2, count = 0, queue = [], released = [True, True, True],
                  futures = 1, resolved = [(0, 2)]\<rparr>,
           calls =
             [\<lparr>task = Settles 1 (Inr 1), permit = Now 0, stage = Returned (Inr 1)\<rparr>,
              \<lparr>task = Settles 0 (Inr 2), permit = Now 1, stage = Returned (Inr 2)\<rparr>,
              \<lparr>task = Settles 0 (Inr 3), permit = Later 0, stage = Returned (Inr 3)\<rparr>],
           alls = [\<lparr>members = [0, 1, 2], elements = [Some 1, Some 2, Some 3],
                    remaining = 0, result = Some (Inr [1, 2, 3])\<rparr>]\<rparr> \<and>
   map outcome [Settles 1 (Inr 1), Settles 0 (Inr 2), Settles 0 (Inr 3) :: (string, nat) task]
     = map Inr [1, 2, 3] \<and>
   fst (submitAll [Settles 1 (Inr 1), Throws ''x'', Settles 0 (Inl ''y'')]
         (boot (Semaphore_init 2) :: (string, nat) world)) = 0 \<and>
   play [Resume 1, Resume 2, Resume 2, Resume 0, Resume 0, Resume 0]
     (snd (submitAll [Settles 1 (Inr 1), Throws ''x'', Settles 0 (Inl ''y'')]
         (boot (Semaphore_init 2) :: (string, nat) world))) =
     Some \<lparr>sem = \<lparr>capacity = 2, count = 0, queue = [], released = [True, True, True],
                  futures = 1, resolved = [(0, 2)]\<rparr>,
           calls =
             [\<lparr>task = Settles 1 (Inr 1), permit = Now 0, stage = Returned (Inr 1)\<rparr>,
              \<lparr>task = Throws ''x'', permit = Now 1, stage = Returned (Inl ''x'')\<rparr>,
              \<lparr>task = Settles 0 (Inl ''y''), permit = Later 0,
                stage = Returned (Inl ''y'')\<rparr>],
           alls = [\<lparr>members = [0, 1, 2], elements = [Some 1, None, None],
                    remaining = 2, result = Some (Inl ''x'')\<rparr>]\<rparr> \<and>
   outcome ([Settles 1 (Inr 1), Throws ''x'', Settles 0 (Inl ''y'')] ! 1
            :: (string, nat) task) = Inl ''x'' \<and>
   submitAll [] (boot (Semaphore_init 2) :: (string, nat) world) =
     (0, \<lparr>sem = Semaphore_init 2, calls = [],
          alls = [\<lparr>members = [], elements = [], remaining = 0,
                   result = Some (Inr [])\<rparr>]\<rparr>) \<and>
   tasks \<lparr>semaphore = Semaphore_init 2\<rparr> = 0"
proof -
  let ?b = "boot (Semaphore_init 2) :: (string, nat) world"
  let ?fs = "[Settles 1 (Inr 1), Settles 0 (Inr 2), Settles 0 (Inr 3)]
    :: (string, nat) task list"
  let ?gs = "[Settles 1 (Inr 1), Throws ''x'', Settles 0 (Inl ''y'')]
    :: (string, nat) task list"
  let ?w2 = "\<lparr>sem = \<lparr>capacity = 2, count = 0, queue = [], released = [True, True, True],
                  futures = 1, resolved = [(0, 2)]\<rparr>,
           calls =
             [\<lparr>task = Settles 1 (Inr 1), permit = Now 0, stage = Returned (Inr 1)\<rparr>,
              \<lparr>task = Settles 0 (Inr 2), permit = Now 1, stage = Returned (Inr 2)\<rparr>,
              \<lparr>task = Settles 0 (Inr 3), permit = Later 0, stage = Returned (Inr 3)\<rparr>],
           alls = [\<lparr>members = [0, 1, 2], elements = [Some 1, Some 2, Some 3],
                    remaining = 0, result = Some (Inr [1, 2, 3])\<rparr>]\<rparr>
    :: (string, nat) world"
  let ?v2 = "\<lparr>sem = \<lparr>capacity = 2, count = 0, queue = [], released = [True, True, True],
                  futures = 1, resolved = [(0, 2)]\<rparr>,
           calls =
             [\<lparr>task = Settles 1 (Inr 1), permit = Now 0, stage = Returned (Inr 1)\<rparr>,
              \<lparr>task = Throws ''x'', permit = Now 1, stage = Returned (Inl ''x'')\<rparr>,
              \<lparr>task = Settles 0 (Inl ''y''), permit = Later 0,
                stage = Returned (Inl ''y'')\<rparr>],
           alls = [\<lparr>members = [0, 1, 2], elements = [Some 1, None, None],
                    remaining = 2, result = Some (Inl ''x'')\<rparr>]\<rparr>
    :: (string, nat) world"
  let ?e1 = "\<lparr>sem = Semaphore_init 2, calls = [],
          alls = [\<lparr>members = [], elements = [], remaining = 0,
                   result = Some (Inr [])\<rparr>]\<rparr> :: (string, nat) world"
  have n: "Semaphore_new (Finite 2) = Inr (Semaphore_init 2)"
    by (simp add: Semaphore_new_def)
  have h: "play [] ?b = Some ?b" by simp
  have f1: "fst (submitAll ?fs ?b) = 0" by (simp add: sem_eval world_eval)
  have s1: "submitAll ?fs ?b = (0, snd (submitAll ?fs ?b))"
    using f1 by (metis prod.collapse)
  have p1: "play [Resume 1, Resume 1, Resume 2, Resume 2, Resume 0, Resume 0, Resume 0]
      (snd (submitAll ?fs ?b)) = Some ?w2"
    by (simp add: sem_eval world_eval)
  have g1: "fst (submitAll ?gs ?b) = 0" by (simp add: sem_eval world_eval)
  have s2: "submitAll ?gs ?b = (0, snd (submitAll ?gs ?b))"
    using g1 by (metis prod.collapse)
  have p2: "play [Resume 1, Resume 2, Resume 2, Resume 0, Resume 0, Resume 0]
      (snd (submitAll ?gs ?b)) = Some ?v2"
    by (simp add: sem_eval world_eval)
  have s3: "submitAll [] ?b = (0, ?e1)" by (simp add: sem_eval world_eval)
  have p3: "play [] ?e1 = Some ?e1" by simp
  from submitAll_results_in_input_order [OF n h s1 p1]
  have "result (alls ?w2 ! 0) = Some (Inr [1, 2, 3]) \<longrightarrow> map outcome ?fs = map Inr [1, 2, 3]"
    by blast
  then have a: "map outcome ?fs = map Inr [1, 2, 3]" by simp
  from submitAll_results_in_input_order [OF n h s2 p2]
  have "result (alls ?v2 ! 0) = Some (Inl ''x'') \<longrightarrow>
      (\<exists>i < length ?gs. outcome (?gs ! i) = Inl ''x'' \<and>
         stage (calls ?v2 ! (length (calls ?b) + i)) = Returned (Inl ''x''))"
    by blast
  have b: "outcome (?gs ! 1) = Inl ''x''" by simp
  from submitAll_results_in_input_order [OF n h s3 p3]
  have "tasks \<lparr>semaphore = sem ?e1\<rparr> = tasks \<lparr>semaphore = sem ?b\<rparr>" by blast
  then have c: "tasks \<lparr>semaphore = Semaphore_init 2\<rparr> = 0"
    by (simp add: tasks_def used_def boot_def Semaphore_init_def)
  from n h f1 p1 a g1 p2 b s3 c show ?thesis by (intro conjI)
qed


end
